theory Spec2Isabelle
  imports Complex_Main "HOL-Library.Multiset"
begin

section \<open>Arrays of the notebook\<close>

text \<open>
  The notebook \<^verbatim>\<open>Intro.ipynb\<close> works on two-dimensional NumPy arrays of binary64
  numbers. Its cells are read twice. The first sections read them over the real numbers:
  a vector is a list of reals, a matrix is the list of its rows, and no operation rounds.
  That is the exact reading: what the expressions of the notebook denote, and what its
  printed checks approximate. The section on binary64 arithmetic reads the same cells with
  every operation rounded as the processor rounds it (the cells are named as in the exact
  reading, with \<open>_fl\<close> appended); that is the reading in which the notebook runs.
  The arrays of the notebook have at least one row (\<open>m \<ge> n \<ge> 1\<close>); an array of shape
  \<open>(m, 0)\<close> is a list of \<open>m\<close> empty rows.
\<close>

type_synonym vec = "real list"
type_synonym mat = "real list list"

definition is_mat :: "nat \<Rightarrow> nat \<Rightarrow> mat \<Rightarrow> bool" where
  "is_mat m n A = (length A = m \<and> list_all (\<lambda>r. length r = n) A)"

definition ncols :: "mat \<Rightarrow> nat" where
  "ncols A = (case A of [] \<Rightarrow> 0 | r # _ \<Rightarrow> length r)"

definition col :: "mat \<Rightarrow> nat \<Rightarrow> vec" where
  "col A j = map (\<lambda>r. r ! j) A"

text \<open>\<^verbatim>\<open>A.T\<close>\<close>
definition transpose_m :: "mat \<Rightarrow> mat" where
  "transpose_m A = map (col A) [0..<ncols A]"

text \<open>\<^verbatim>\<open>np.dot(u, v)\<close> on two vectors of one length.\<close>
definition dot :: "vec \<Rightarrow> vec \<Rightarrow> real" where
  "dot u v = sum_list (map2 (*) u v)"

text \<open>
  \<^verbatim>\<open>A @ B\<close> on two matrices, \<^verbatim>\<open>A @ x\<close> on a matrix and a vector, and a row vector
  times a matrix (a row of \<^verbatim>\<open>A @ B\<close>).
\<close>
definition vec_mat :: "vec \<Rightarrow> mat \<Rightarrow> vec" where
  "vec_mat r B = map (\<lambda>j. dot r (col B j)) [0..<ncols B]"

definition matmul :: "mat \<Rightarrow> mat \<Rightarrow> mat" where
  "matmul A B = map (\<lambda>r. vec_mat r B) A"

definition mat_vec :: "mat \<Rightarrow> vec \<Rightarrow> vec" where
  "mat_vec A x = map (\<lambda>r. dot r x) A"

definition zeros :: "nat \<Rightarrow> vec" where
  "zeros n = replicate n 0"


definition eye :: "nat \<Rightarrow> mat" where
  "eye n = map (\<lambda>i. map (\<lambda>j. if i = j then 1 else 0) [0..<n]) [0..<n]"

text \<open>The tolerance of the specification.\<close>
definition eps :: real where
  "eps = 1 / 10 ^ 9"

subsection \<open>The inverse of a matrix\<close>

text \<open>
  \<^verbatim>\<open>numpy.linalg.inv\<close> is not code of the notebook. In the exact reading it returns the
  inverse of a square matrix that has one and raises \<^verbatim>\<open>LinAlgError\<close> otherwise; it is
  Gauss-Jordan elimination on the rows of \<open>[A | I]\<close>, with \<open>None\<close> for the error. Over the
  real numbers the order of the elimination and the choice of the pivots do not change the
  result (the inverse is unique), so the first non-zero entry of the column is the pivot.
  The elimination as LAPACK rounds it is \<open>inv_fl\<close>.
\<close>

type_synonym arow = "vec \<times> vec"

definition scale :: "real \<Rightarrow> vec \<Rightarrow> vec" where
  "scale c v = map ((*) c) v"

definition axpy :: "real \<Rightarrow> vec \<Rightarrow> vec \<Rightarrow> vec" where
  "axpy c p r = map2 (\<lambda>x y. x - c * y) r p"

fun find_pivot :: "nat \<Rightarrow> arow list \<Rightarrow> (arow \<times> arow list) option" where
  "find_pivot k [] = None"
| "find_pivot k (r # rs) =
     (if fst r ! k \<noteq> 0 then Some (r, rs)
      else (case find_pivot k rs of None \<Rightarrow> None | Some (p, rest) \<Rightarrow> Some (p, r # rest)))"

definition normalise :: "nat \<Rightarrow> arow \<Rightarrow> arow" where
  "normalise k p = (scale (1 / fst p ! k) (fst p), scale (1 / fst p ! k) (snd p))"

definition elim :: "nat \<Rightarrow> arow \<Rightarrow> arow \<Rightarrow> arow" where
  "elim k p r = (axpy (fst r ! k) (fst p) (fst r), axpy (fst r ! k) (snd p) (snd r))"

fun gauss_jordan :: "nat \<Rightarrow> nat \<Rightarrow> arow list \<Rightarrow> arow list \<Rightarrow> arow list option" where
  "gauss_jordan k 0 done todo = Some done"
| "gauss_jordan k (Suc f) done todo =
     (case find_pivot k todo of
        None \<Rightarrow> None
      | Some (p, rest) \<Rightarrow>
          gauss_jordan (Suc k) f
            (map (elim k (normalise k p)) done @ [normalise k p])
            (map (elim k (normalise k p)) rest))"

definition inv :: "mat \<Rightarrow> mat option" where
  "inv A =
     (if is_mat (length A) (length A) A
      then map_option (map snd) (gauss_jordan 0 (length A) [] (zip A (eye (length A))))
      else None)"

subsection \<open>The operators of a frame\<close>

text \<open>\<^verbatim>\<open>T_syn = T_ana.T\<close>, \<^verbatim>\<open>G = T_ana @ T_syn\<close>, \<^verbatim>\<open>S = T_syn @ T_ana\<close>\<close>
definition T_syn :: "mat \<Rightarrow> mat" where
  "T_syn T_ana = transpose_m T_ana"

definition G :: "mat \<Rightarrow> mat" where
  "G T_ana = matmul T_ana (T_syn T_ana)"

definition S :: "mat \<Rightarrow> mat" where
  "S T_ana = matmul (T_syn T_ana) T_ana"

text \<open>
  A valid frame: \<open>m\<close> vectors of \<open>\<real>\<^sup>n\<close>, the rows of the analysis operator, with
  \<open>m \<ge> n \<ge> 1\<close> and full column rank: no vector but zero is mapped to zero.
\<close>
definition full_column_rank :: "nat \<Rightarrow> mat \<Rightarrow> bool" where
  "full_column_rank n A =
     (\<forall>x. length x = n \<longrightarrow> mat_vec A x = zeros (length A) \<longrightarrow> x = zeros n)"

definition valid_frame :: "nat \<Rightarrow> nat \<Rightarrow> mat \<Rightarrow> bool" where
  "valid_frame m n T_ana = (is_mat m n T_ana \<and> 0 < n \<and> n \<le> m \<and> full_column_rank n T_ana)"

subsection \<open>Invariants of the elimination\<close>

text \<open>
  Every row \<open>(a, b)\<close> of the elimination is a combination of the rows of \<open>[A | I]\<close>,
  so \<open>b A = a\<close>; after \<open>k\<close> columns the rows already used as pivots carry the first
  \<open>k\<close> unit vectors and the others are zero there; and the row operations keep the
  common kernel of the rows, on both sides of the bar.
\<close>
definition good_row :: "nat \<Rightarrow> mat \<Rightarrow> arow \<Rightarrow> bool" where
  "good_row n A r = (length (fst r) = n \<and> length (snd r) = n \<and> vec_mat (snd r) A = fst r)"

definition reduced :: "nat \<Rightarrow> arow list \<Rightarrow> arow list \<Rightarrow> bool" where
  "reduced k dn td =
     (length dn = k \<and> (\<forall>i<k. \<forall>j<k. fst (dn ! i) ! j = (if i = j then 1 else 0)) \<and>
      (\<forall>r\<in>set td. \<forall>j<k. fst r ! j = 0))"

definition trivial_kernel :: "nat \<Rightarrow> arow list \<Rightarrow> bool" where
  "trivial_kernel n rows =
     (\<forall>x. length x = n \<longrightarrow> (\<forall>r\<in>set rows. dot (fst r) x = 0) \<longrightarrow> x = zeros n)"

definition trivial_kernel_b :: "nat \<Rightarrow> arow list \<Rightarrow> bool" where
  "trivial_kernel_b n rows =
     (\<forall>x. length x = n \<longrightarrow> (\<forall>r\<in>set rows. dot (snd r) x = 0) \<longrightarrow> x = zeros n)"

subsection \<open>The canonical dual frame\<close>




subsection \<open>The symmetry check\<close>

text \<open>
  \<^verbatim>\<open>np.all(G.T == G)\<close> and \<^verbatim>\<open>np.all(S.T == S)\<close>: the elementwise comparison \<^verbatim>\<open>==\<close> of two
  arrays of one shape, and \<^verbatim>\<open>np.all\<close> of the array of booleans.
\<close>
definition np_eq :: "mat \<Rightarrow> mat \<Rightarrow> bool list list" where
  "np_eq A B = map2 (map2 (=)) A B"

definition np_all :: "bool list list \<Rightarrow> bool" where
  "np_all M = list_all (list_all id) M"

definition self_adjoint :: "mat \<Rightarrow> bool" where
  "self_adjoint M = np_all (np_eq (transpose_m M) M)"

text \<open>
  The check in the words of the specification: the largest absolute difference between
  an entry of the matrix and the entry of its transpose is below the tolerance.
\<close>
definition max_abs_diff :: "mat \<Rightarrow> mat \<Rightarrow> real" where
  "max_abs_diff A B = fold max (concat (map2 (map2 (\<lambda>a b. \<bar>a - b\<bar>)) A B)) 0"

definition symmetric_within :: "real \<Rightarrow> mat \<Rightarrow> bool" where
  "symmetric_within e M = (max_abs_diff (transpose_m M) M < e)"

subsection \<open>Duals from the null space of the synthesis operator\<close>







subsection \<open>The dual of a subframe\<close>






subsection \<open>The canonical tight frame\<close>





subsection \<open>Redundancy of the frame elements\<close>



text \<open>
  \<^verbatim>\<open>S_dep = T_ana_dep.T @ T_ana_dep\<close>, \<^verbatim>\<open>S_dep_inv = inv(S_dep)\<close>,
  \<^verbatim>\<open>T_dual_syn_dep = S_dep_inv @ T_ana_dep.T\<close> and the printed diagnostics
  \<^verbatim>\<open>np.diag(T_ana_dep @ T_dual_syn_dep)\<close>.
\<close>
definition np_diag :: "mat \<Rightarrow> vec" where
  "np_diag A = map (\<lambda>i. A ! i ! i) [0..<min (length A) (ncols A)]"

definition S_dep :: "mat \<Rightarrow> mat" where
  "S_dep T_ana = matmul (transpose_m T_ana) T_ana"

definition S_dep_inv :: "mat \<Rightarrow> mat option" where
  "S_dep_inv T_ana = inv (S_dep T_ana)"

definition T_dual_syn_dep :: "mat \<Rightarrow> mat option" where
  "T_dual_syn_dep T_ana = map_option (\<lambda>Si. matmul Si (transpose_m T_ana)) (S_dep_inv T_ana)"

definition check_condition :: "mat \<Rightarrow> vec option" where
  "check_condition T_ana = map_option (\<lambda>D. np_diag (matmul T_ana D)) (T_dual_syn_dep T_ana)"

text \<open>The two labels of a frame element.\<close>
datatype label = essential | removable

text \<open>
  Modelled from the spec: the decision rule of \<open>classify\<close>. The notebook prints the
  diagnostics and gives the rule only as a formula in a markdown cell; the specification
  labels index \<open>i\<close> essential when \<open>|d\<^sub>i - 1| < \<epsilon>\<close> and removable otherwise, for a tolerance
  \<open>\<epsilon>\<close> that the caller may set.
\<close>
definition classify :: "real \<Rightarrow> mat \<Rightarrow> label list option" where
  "classify e T_ana =
     map_option (map (\<lambda>d. if \<bar>d - 1\<bar> < e then essential else removable))
       (check_condition T_ana)"

text \<open>
  A frame to measure the rule on: the \<open>N\<close> unit vectors of \<open>\<real>\<^sup>N\<close> and their sum.
\<close>
definition simplex_frame :: "nat \<Rightarrow> mat" where
  "simplex_frame N = eye N @ [replicate N 1]"

subsection \<open>Eigenvalues and frame bounds\<close>


text \<open>\<^verbatim>\<open>A = min(lam)\<close>, \<^verbatim>\<open>B = max(lam)\<close>, and the same of \<^verbatim>\<open>lam_inv = eigvals(S_inv)\<close>.\<close>
definition frame_bounds :: "vec \<Rightarrow> real \<times> real" where
  "frame_bounds lam = (Min (set lam), Max (set lam))"

text \<open>
  \<^verbatim>\<open>lam_pos = [l for l in lam_G if abs(l)>1e-10]\<close>. The literal \<^verbatim>\<open>1e-10\<close> of the source is
  the binary64 number nearest to \<open>10\<^sup>-\<^sup>1\<^sup>0\<close>, a little above it.
\<close>
definition literal_1e_10 :: real where
  "literal_1e_10 = 7737125245533627 / 2 ^ 86"


section \<open>The notebook in binary64 arithmetic\<close>

text \<open>
  NumPy computes in IEEE 754 binary64. A value of the format is a finite number, an
  infinity or a NaN. The two zeros of the format are one value here: the notebook divides
  by pivots only, which are not zero, and \<^verbatim>\<open>==\<close>, \<^verbatim>\<open>abs\<close> and \<^verbatim>\<open>>\<close> do not tell the zeros apart.
\<close>
datatype f64 = Fin real | PInf | NInf | NaN


text \<open>
  Rounding to nearest, ties to the even significand. The numbers of the format around \<open>x\<close>
  are the multiples of \<open>2\<^sup>e\<^sup>-\<^sup>5\<^sup>2\<close>, where \<open>e\<close> is the exponent of the binade of \<open>x\<close>
  (\<open>2\<^sup>e \<le> |x| < 2\<^sup>e\<^sup>+\<^sup>1\<close>) and at least \<open>-1022\<close>, the exponent of the subnormal numbers. The
  exponent is searched upwards from \<open>-1022\<close>; a magnitude of \<open>2\<^sup>1\<^sup>0\<^sup>2\<^sup>4\<close> or more after
  rounding is an infinity.
\<close>
fun binade :: "nat \<Rightarrow> int \<Rightarrow> real \<Rightarrow> int" where
  "binade 0 e x = e"
| "binade (Suc k) e x = (if x < 2 powi (e + 1) then e else binade k (e + 1) x)"

definition expo :: "real \<Rightarrow> int" where
  "expo x = binade 2046 (- 1022) \<bar>x\<bar>"

definition round_even :: "real \<Rightarrow> int" where
  "round_even y =
     (if y - of_int \<lfloor>y\<rfloor> < 1 / 2 then \<lfloor>y\<rfloor>
      else if 1 / 2 < y - of_int \<lfloor>y\<rfloor> then \<lfloor>y\<rfloor> + 1
      else if even \<lfloor>y\<rfloor> then \<lfloor>y\<rfloor> else \<lfloor>y\<rfloor> + 1)"

definition fl :: "real \<Rightarrow> f64" where
  "fl x =
     (if (2::real) powi 1024 \<le> \<bar>of_int (round_even (x / 2 powi (expo x - 52))) * 2 powi (expo x - 52)\<bar>
      then (if 0 < x then PInf else NInf)
      else Fin (of_int (round_even (x / 2 powi (expo x - 52))) * 2 powi (expo x - 52)))"










subsection \<open>Arrays of binary64 numbers\<close>










subsection \<open>The inverse in binary64\<close>












subsection \<open>The cells of the notebook in binary64\<close>





















section \<open>Index lemmas\<close>

lemma is_mat_nth:
  assumes "is_mat m n A" "i < m"
  shows "length (A ! i) = n"
  using assms by (simp add: is_mat_def list_all_length)

lemma is_mat_length: "is_mat m n A \<Longrightarrow> length A = m"
  by (simp add: is_mat_def)

lemma is_matI:
  assumes "length A = m" "\<And>i. i < m \<Longrightarrow> length (A ! i) = n"
  shows "is_mat m n A"
  using assms by (simp add: is_mat_def list_all_length)

lemma ncols_is_mat: "is_mat m n A \<Longrightarrow> 0 < m \<Longrightarrow> ncols A = n"
  by (cases A) (auto simp: ncols_def is_mat_def)

lemma dot_sum:
  "length u = n \<Longrightarrow> length v = n \<Longrightarrow> dot u v = (\<Sum>k<n. u ! k * v ! k)"
proof (induction u arbitrary: v n)
  case Nil
  then show ?case by (simp add: dot_def)
next
  case (Cons a u)
  then obtain b v' where v: "v = b # v'" by (cases v) auto
  obtain n' where n: "n = Suc n'" using Cons.prems by (cases n) auto
  have "dot u v' = (\<Sum>k<n'. u ! k * v' ! k)"
    using Cons.IH[of n' v'] Cons.prems v n by simp
  then show ?case
    unfolding v n by (simp add: dot_def sum.lessThan_Suc_shift del: sum.lessThan_Suc)
qed

lemma dot_commute: "length u = length v \<Longrightarrow> dot u v = dot v u"
  by (simp add: dot_sum[of u "length v" v] dot_sum[of v "length v" u] mult.commute)

lemma col_nth: "i < length A \<Longrightarrow> col A j ! i = A ! i ! j"
  by (simp add: col_def)

lemma length_col: "length (col A j) = length A"
  by (simp add: col_def)

lemma transpose_m_nth:
  assumes "is_mat m n A" "0 < m" "j < n" "i < m"
  shows "transpose_m A ! j ! i = A ! i ! j"
  using assms by (simp add: transpose_m_def ncols_is_mat col_nth is_mat_length)

lemma is_mat_transpose:
  assumes "is_mat m n A" "0 < m"
  shows "is_mat n m (transpose_m A)"
  using assms by (intro is_matI) (simp_all add: transpose_m_def ncols_is_mat length_col is_mat_length)

lemma matmul_nth:
  assumes "is_mat m n A" "is_mat n p B" "0 < n" "i < m" "j < p"
  shows "matmul A B ! i ! j = (\<Sum>k<n. A ! i ! k * B ! k ! j)"
proof -
  have "matmul A B ! i ! j = dot (A ! i) (col B j)"
    using assms by (simp add: matmul_def vec_mat_def ncols_is_mat is_mat_length)
  also have "\<dots> = (\<Sum>k<n. A ! i ! k * col B j ! k)"
    using assms by (intro dot_sum) (simp_all add: is_mat_nth length_col is_mat_length)
  also have "\<dots> = (\<Sum>k<n. A ! i ! k * B ! k ! j)"
    using assms by (intro sum.cong) (simp_all add: col_nth is_mat_length)
  finally show ?thesis .
qed

lemma is_mat_matmul:
  assumes "is_mat m n A" "is_mat n p B" "0 < n"
  shows "is_mat m p (matmul A B)"
  using assms by (intro is_matI) (simp_all add: matmul_def vec_mat_def ncols_is_mat is_mat_length)

lemma mat_eqI:
  assumes "is_mat m n A" "is_mat m n B"
    and "\<And>i j. i < m \<Longrightarrow> j < n \<Longrightarrow> A ! i ! j = B ! i ! j"
  shows "A = B"
proof (rule nth_equalityI)
  show "length A = length B" using assms by (simp add: is_mat_length)
next
  fix i assume "i < length A"
  then have i: "i < m" using assms by (simp add: is_mat_length)
  show "A ! i = B ! i"
    using assms i by (intro nth_equalityI) (simp_all add: is_mat_nth)
qed

lemma matmul_assoc:
  assumes "is_mat m n A" "is_mat n p B" "is_mat p q C" "0 < n" "0 < p"
  shows "matmul (matmul A B) C = matmul A (matmul B C)"
proof (rule mat_eqI[of m q])
  have AB: "is_mat m p (matmul A B)"
    by (rule is_mat_matmul[OF assms(1) assms(2) assms(4)])
  have BC: "is_mat n q (matmul B C)"
    by (rule is_mat_matmul[OF assms(2) assms(3) assms(5)])
  show "is_mat m q (matmul (matmul A B) C)"
    by (rule is_mat_matmul[OF AB assms(3) assms(5)])
  show "is_mat m q (matmul A (matmul B C))"
    by (rule is_mat_matmul[OF assms(1) BC assms(4)])
  fix i j assume ij: "i < m" "j < q"
  have "matmul (matmul A B) C ! i ! j = (\<Sum>l<p. (\<Sum>k<n. A ! i ! k * B ! k ! l) * C ! l ! j)"
    using assms ij AB by (simp add: matmul_nth[of m p _ q] matmul_nth[of m n _ p])
  also have "\<dots> = (\<Sum>l<p. \<Sum>k<n. A ! i ! k * (B ! k ! l * C ! l ! j))"
    by (simp add: sum_distrib_right mult.assoc)
  also have "\<dots> = (\<Sum>k<n. \<Sum>l<p. A ! i ! k * (B ! k ! l * C ! l ! j))"
    by (rule sum.swap)
  also have "\<dots> = (\<Sum>k<n. A ! i ! k * (\<Sum>l<p. B ! k ! l * C ! l ! j))"
    by (simp add: sum_distrib_left)
  also have "\<dots> = matmul A (matmul B C) ! i ! j"
    using assms ij BC by (simp add: matmul_nth[of m n _ q] matmul_nth[of n p _ q])
  finally show "matmul (matmul A B) C ! i ! j = matmul A (matmul B C) ! i ! j" .
qed

lemma eye_nth: "i < n \<Longrightarrow> j < n \<Longrightarrow> eye n ! i ! j = (if i = j then 1 else 0)"
  by (simp add: eye_def)

lemma is_mat_eye: "is_mat n n (eye n)"
  by (intro is_matI) (simp_all add: eye_def)

section \<open>Correctness of the inverse\<close>

lemma length_scale [simp]: "length (scale c v) = length v"
  by (simp add: scale_def)

lemma scale_nth [simp]: "j < length v \<Longrightarrow> scale c v ! j = c * v ! j"
  by (simp add: scale_def)

lemma length_axpy [simp]: "length (axpy c p r) = min (length r) (length p)"
  by (simp add: axpy_def)

lemma axpy_nth [simp]: "j < length r \<Longrightarrow> j < length p \<Longrightarrow> axpy c p r ! j = r ! j - c * p ! j"
  by (simp add: axpy_def)

lemma vec_mat_nth:
  assumes "length b = n" "is_mat n q A" "0 < n" "j < q"
  shows "vec_mat b A ! j = (\<Sum>i<n. b ! i * A ! i ! j)"
proof -
  have "vec_mat b A ! j = dot b (col A j)"
    using assms by (simp add: vec_mat_def ncols_is_mat)
  also have "\<dots> = (\<Sum>i<n. b ! i * col A j ! i)"
    using assms by (intro dot_sum) (simp_all add: length_col is_mat_length)
  also have "\<dots> = (\<Sum>i<n. b ! i * A ! i ! j)"
    using assms by (intro sum.cong) (simp_all add: col_nth is_mat_length)
  finally show ?thesis .
qed

lemma length_vec_mat: "is_mat n q A \<Longrightarrow> 0 < n \<Longrightarrow> length (vec_mat b A) = q"
  by (simp add: vec_mat_def ncols_is_mat)

lemma vec_mat_scale:
  assumes "length b = n" "is_mat n q A" "0 < n"
  shows "vec_mat (scale c b) A = scale c (vec_mat b A)"
proof (rule nth_equalityI)
  show "length (vec_mat (scale c b) A) = length (scale c (vec_mat b A))"
    using assms by (simp add: length_vec_mat)
next
  fix j assume "j < length (vec_mat (scale c b) A)"
  then have j: "j < q" using assms by (simp add: length_vec_mat)
  have "vec_mat (scale c b) A ! j = (\<Sum>i<n. scale c b ! i * A ! i ! j)"
    using assms j by (intro vec_mat_nth) simp_all
  also have "\<dots> = (\<Sum>i<n. c * (b ! i * A ! i ! j))"
    using assms by (intro sum.cong) simp_all
  also have "\<dots> = c * vec_mat b A ! j"
    using assms j by (simp add: vec_mat_nth[of b n q] sum_distrib_left)
  finally show "vec_mat (scale c b) A ! j = scale c (vec_mat b A) ! j"
    using assms j by (simp add: length_vec_mat)
qed

lemma vec_mat_axpy:
  assumes "length p = n" "length r = n" "is_mat n q A" "0 < n"
  shows "vec_mat (axpy c p r) A = axpy c (vec_mat p A) (vec_mat r A)"
proof (rule nth_equalityI)
  show "length (vec_mat (axpy c p r) A) = length (axpy c (vec_mat p A) (vec_mat r A))"
    using assms by (simp add: length_vec_mat)
next
  fix j assume "j < length (vec_mat (axpy c p r) A)"
  then have j: "j < q" using assms by (simp add: length_vec_mat)
  have "vec_mat (axpy c p r) A ! j = (\<Sum>i<n. axpy c p r ! i * A ! i ! j)"
    using assms j by (intro vec_mat_nth) simp_all
  also have "\<dots> = (\<Sum>i<n. r ! i * A ! i ! j - c * (p ! i * A ! i ! j))"
    using assms by (intro sum.cong) (simp_all add: algebra_simps)
  also have "\<dots> = vec_mat r A ! j - c * vec_mat p A ! j"
    using assms j
    by (simp add: vec_mat_nth[of _ n q] sum_subtractf sum_distrib_left)
  finally show "vec_mat (axpy c p r) A ! j = axpy c (vec_mat p A) (vec_mat r A) ! j"
    using assms j by (simp add: length_vec_mat)
qed

lemma dot_scale:
  "length v = length x \<Longrightarrow> dot (scale c v) x = c * dot v x"
  by (simp add: dot_sum[of _ "length x"] sum_distrib_left mult.assoc)

lemma dot_axpy:
  assumes "length p = length x" "length r = length x"
  shows "dot (axpy c p r) x = dot r x - c * dot p x"
  using assms
  by (simp add: dot_sum[of _ "length x"] sum_subtractf sum_distrib_left algebra_simps)

lemma find_pivot_Some:
  assumes "find_pivot k td = Some (p, rest)"
  shows "fst p ! k \<noteq> 0 \<and> set td = insert p (set rest) \<and> length td = Suc (length rest)"
  using assms
proof (induction td arbitrary: p rest)
  case Nil
  then show ?case by simp
next
  case (Cons r rs)
  show ?case
  proof (cases "fst r ! k \<noteq> 0")
    case True
    with Cons.prems show ?thesis by auto
  next
    case False
    with Cons.prems obtain rest' where f: "find_pivot k rs = Some (p, rest')" and r: "rest = r # rest'"
      by (auto split: option.splits)
    from Cons.IH[OF f] r show ?thesis by auto
  qed
qed

lemma find_pivot_None:
  "find_pivot k td = None \<Longrightarrow> \<forall>r\<in>set td. fst r ! k = 0"
  by (induction td) (auto split: if_splits option.splits)

lemma good_row_normalise:
  assumes "is_mat n n A" "0 < n" "good_row n A p"
  shows "good_row n A (normalise k p)"
  using assms by (simp add: good_row_def normalise_def vec_mat_scale[of _ n n])

lemma good_row_elim:
  assumes "is_mat n n A" "0 < n" "good_row n A p" "good_row n A r"
  shows "good_row n A (elim k p r)"
  using assms by (simp add: good_row_def elim_def vec_mat_axpy[of _ n _ n])

lemma normalise_fst_nth:
  assumes "length (fst p) = n" "j < n"
  shows "fst (normalise k p) ! j = fst p ! j / fst p ! k"
  using assms by (simp add: normalise_def)

lemma elim_fst_nth:
  assumes "length (fst p) = n" "length (fst r) = n" "j < n"
  shows "fst (elim k p r) ! j = fst r ! j - fst r ! k * fst p ! j"
  using assms by (simp add: elim_def)

lemma reduced_step:
  assumes k: "k < n"
    and len: "\<forall>r\<in>set (dn @ td). length (fst r) = n"
    and red: "reduced k dn td"
    and piv: "find_pivot k td = Some (p, rest)"
  shows "reduced (Suc k) (map (elim k (normalise k p)) dn @ [normalise k p])
           (map (elim k (normalise k p)) rest)"
proof -
  let ?p = "normalise k p"
  from find_pivot_Some[OF piv] have pk: "fst p ! k \<noteq> 0" and std: "set td = insert p (set rest)"
    by auto
  have lp: "length (fst p) = n" using len std by auto
  have lp': "length (fst ?p) = n" using lp by (simp add: normalise_def)
  have ldn: "length dn = k" using red by (simp add: reduced_def)
  have p_lt: "fst ?p ! j = 0" if "j < k" for j
  proof -
    have "fst p ! j = 0" using red std that by (auto simp: reduced_def)
    then show ?thesis using lp k that by (simp add: normalise_fst_nth[of p n])
  qed
  have p_k: "fst ?p ! k = 1"
    using lp k pk by (simp add: normalise_fst_nth[of p n])
  have dn_ok: "fst (elim k ?p (dn ! i)) ! j = (if i = j then 1 else 0)"
    if "i < k" "j < Suc k" for i j
  proof -
    have li: "length (fst (dn ! i)) = n" using len ldn that by auto
    have e: "fst (elim k ?p (dn ! i)) ! j = fst (dn ! i) ! j - fst (dn ! i) ! k * fst ?p ! j"
      using lp' li that k by (intro elim_fst_nth[of _ n]) simp_all
    show ?thesis
    proof (cases "j < k")
      case True
      then show ?thesis using e p_lt[of j] red that by (simp add: reduced_def)
    next
      case False
      then have "j = k" using that by simp
      then show ?thesis using e p_k that by simp
    qed
  qed
  have td_ok: "fst (elim k ?p r) ! j = 0" if "r \<in> set rest" "j < Suc k" for r j
  proof -
    have lr: "length (fst r) = n" using len std that by auto
    have e: "fst (elim k ?p r) ! j = fst r ! j - fst r ! k * fst ?p ! j"
      using lp' lr that k by (intro elim_fst_nth[of _ n]) simp_all
    have rz: "\<forall>j<k. fst r ! j = 0" using red std that by (auto simp: reduced_def)
    show ?thesis
    proof (cases "j < k")
      case True
      then show ?thesis using e p_lt[of j] rz by simp
    next
      case False
      then have "j = k" using that by simp
      then show ?thesis using e p_k by simp
    qed
  qed
  have "fst ((map (elim k ?p) dn @ [?p]) ! i) ! j = (if i = j then 1 else 0)"
    if "i < Suc k" "j < Suc k" for i j
  proof (cases "i < k")
    case True
    then show ?thesis using dn_ok[of i j] that ldn by (simp add: nth_append)
  next
    case False
    then have i: "i = k" using that by simp
    show ?thesis
    proof (cases "j < k")
      case True
      then show ?thesis using i ldn p_lt[of j] by (simp add: nth_append)
    next
      case False
      then have "j = k" using that by simp
      then show ?thesis using i ldn p_k by (simp add: nth_append)
    qed
  qed
  then show ?thesis
    using ldn td_ok unfolding reduced_def by auto
qed

lemma trivial_kernel_step:
  assumes k: "k < n"
    and len: "\<forall>r\<in>set (dn @ td). length (fst r) = n"
    and tk: "trivial_kernel n (dn @ td)"
    and piv: "find_pivot k td = Some (p, rest)"
  shows "trivial_kernel n ((map (elim k (normalise k p)) dn @ [normalise k p]) @
           map (elim k (normalise k p)) rest)"
  unfolding trivial_kernel_def
proof (intro allI impI)
  let ?p = "normalise k p"
  fix x :: vec
  assume lx: "length x = n"
    and z: "\<forall>r\<in>set ((map (elim k ?p) dn @ [?p]) @ map (elim k ?p) rest). dot (fst r) x = 0"
  from find_pivot_Some[OF piv] have pk: "fst p ! k \<noteq> 0" and std: "set td = insert p (set rest)"
    by auto
  have lp: "length (fst p) = n" using len std by auto
  have lp': "length (fst ?p) = n" using lp by (simp add: normalise_def)
  have "dot (fst ?p) x = 0" using z by simp
  then have zp': "dot (scale (1 / fst p ! k) (fst p)) x = 0" by (simp add: normalise_def)
  have zp: "dot (fst p) x = 0"
    using zp' pk lp lx by (simp add: dot_scale)
  have zr: "dot (fst r) x = 0" if "r \<in> set dn \<union> set rest" for r
  proof -
    have lr: "length (fst r) = n" using len std that by auto
    have "dot (fst (elim k ?p r)) x = 0" using z that by auto
    then have "dot (axpy (fst r ! k) (fst ?p) (fst r)) x = 0" by (simp add: elim_def)
    then show ?thesis
      using lr lp' lx \<open>dot (fst ?p) x = 0\<close> by (simp add: dot_axpy)
  qed
  have "\<forall>r\<in>set (dn @ td). dot (fst r) x = 0"
    using zr zp std by auto
  then show "x = zeros n"
    using tk lx unfolding trivial_kernel_def by blast
qed

lemma good_rows_step:
  assumes A: "is_mat n n A" "0 < n"
    and good: "\<forall>r\<in>set (dn @ td). good_row n A r"
    and piv: "find_pivot k td = Some (p, rest)"
  shows "\<forall>r\<in>set ((map (elim k (normalise k p)) dn @ [normalise k p]) @
           map (elim k (normalise k p)) rest). good_row n A r"
proof -
  from find_pivot_Some[OF piv] have std: "set td = insert p (set rest)" by auto
  have gp: "good_row n A (normalise k p)"
    using good std by (intro good_row_normalise[OF A]) auto
  have "good_row n A (elim k (normalise k p) r)" if "r \<in> set dn \<union> set rest" for r
    using good std that by (intro good_row_elim[OF A gp]) auto
  then show ?thesis using gp by auto
qed

lemma gauss_jordan_sound:
  assumes A: "is_mat n n A" "0 < n"
    and run: "gauss_jordan k f dn td = Some res"
    and kf: "k + f = n" "length td = f"
    and good: "\<forall>r\<in>set (dn @ td). good_row n A r"
    and red: "reduced k dn td"
  shows "(\<forall>r\<in>set res. good_row n A r) \<and> reduced n res []"
  using run kf good red
proof (induction f arbitrary: k dn td)
  case 0
  then show ?case by (auto simp: reduced_def)
next
  case (Suc f)
  from Suc.prems(1) obtain p rest where piv: "find_pivot k td = Some (p, rest)"
    and run': "gauss_jordan (Suc k) f (map (elim k (normalise k p)) dn @ [normalise k p])
                 (map (elim k (normalise k p)) rest) = Some res"
    by (auto split: option.splits)
  have k: "k < n" using Suc.prems(2) by simp
  have len: "\<forall>r\<in>set (dn @ td). length (fst r) = n"
    using Suc.prems(4) by (auto simp: good_row_def)
  have lrest: "length (map (elim k (normalise k p)) rest) = f"
    using find_pivot_Some[OF piv] Suc.prems(3) by simp
  show ?case
    using Suc.IH[OF run' _ lrest good_rows_step[OF A Suc.prems(4) piv]
        reduced_step[OF k len Suc.prems(5) piv]] Suc.prems(2)
    by simp
qed

lemma no_pivot_kernel:
  assumes k: "k < n"
    and len: "\<forall>r\<in>set (dn @ td). length (fst r) = n"
    and red: "reduced k dn td"
    and nop: "\<forall>r\<in>set td. fst r ! k = 0"
  shows "\<not> trivial_kernel n (dn @ td)"
proof
  assume tk: "trivial_kernel n (dn @ td)"
  define x :: vec where
    "x = map (\<lambda>j. if j < k then - fst (dn ! j) ! k else if j = k then 1 else 0) [0..<n]"
  have lx: "length x = n" by (simp add: x_def)
  have xn: "x ! j = (if j < k then - fst (dn ! j) ! k else if j = k then 1 else 0)"
    if "j < n" for j using that by (simp add: x_def)
  have ldn: "length dn = k" using red by (simp add: reduced_def)
  have dotx: "dot a x = (\<Sum>j<k. a ! j * x ! j) + a ! k"
    if "length a = n" for a
  proof -
    have "dot a x = (\<Sum>j<n. a ! j * x ! j)" using that lx by (rule dot_sum)
    also have "\<dots> = (\<Sum>j<k. a ! j * x ! j) + (\<Sum>j=k..<n. a ! j * x ! j)"
      using sum.atLeastLessThan_concat[of 0 k n "\<lambda>j. a ! j * x ! j"] k
      by (simp add: lessThan_atLeast0)
    also have "(\<Sum>j=k..<n. a ! j * x ! j) = a ! k * x ! k + (\<Sum>j=Suc k..<n. a ! j * x ! j)"
      using k by (simp add: sum.atLeast_Suc_lessThan)
    also have "(\<Sum>j=Suc k..<n. a ! j * x ! j) = 0"
      by (intro sum.neutral) (simp add: xn)
    also have "a ! k * x ! k = a ! k" using k by (simp add: xn)
    finally show ?thesis by simp
  qed
  have zd: "dot (fst r) x = 0" if "r \<in> set dn" for r
  proof -
    from that obtain i where i: "i < k" "r = dn ! i"
      using ldn by (auto simp: in_set_conv_nth)
    have lr: "length (fst r) = n" using len that by auto
    have "(\<Sum>j<k. fst r ! j * x ! j) = (\<Sum>j<k. if j = i then - fst r ! k else 0)"
    proof (intro sum.cong refl)
      fix j assume "j \<in> {..<k}"
      then have j: "j < k" by simp
      have "fst r ! j = (if i = j then 1 else 0)"
        using red i j by (simp add: reduced_def)
      then show "fst r ! j * x ! j = (if j = i then - fst r ! k else 0)"
        using j k i by (auto simp: xn)
    qed
    also have "\<dots> = - fst r ! k" using i by simp
    finally show ?thesis using dotx[OF lr] by simp
  qed
  have zt: "dot (fst r) x = 0" if "r \<in> set td" for r
  proof -
    have lr: "length (fst r) = n" using len that by auto
    have "(\<Sum>j<k. fst r ! j * x ! j) = 0"
      using red that by (intro sum.neutral) (auto simp: reduced_def)
    then show ?thesis using dotx[OF lr] nop that by simp
  qed
  have "x = zeros n"
    using tk lx zd zt unfolding trivial_kernel_def by auto
  then have "x ! k = 0" using k by (simp add: zeros_def)
  then show False using k by (simp add: xn)
qed

lemma gauss_jordan_complete:
  assumes kf: "k + f = n" "length td = f"
    and len: "\<forall>r\<in>set (dn @ td). length (fst r) = n"
    and red: "reduced k dn td"
    and tk: "trivial_kernel n (dn @ td)"
  shows "\<exists>res. gauss_jordan k f dn td = Some res"
  using kf len red tk
proof (induction f arbitrary: k dn td)
  case 0
  then show ?case by simp
next
  case (Suc f)
  have k: "k < n" using Suc.prems(1) by simp
  obtain p rest where piv: "find_pivot k td = Some (p, rest)"
  proof (cases "find_pivot k td")
    case None
    from no_pivot_kernel[OF k Suc.prems(3) Suc.prems(4) find_pivot_None[OF None]] Suc.prems(5)
    show ?thesis by simp
  next
    case (Some a)
    then show ?thesis using that by (cases a) simp
  qed
  let ?p = "normalise k p"
  from find_pivot_Some[OF piv] have std: "set td = insert p (set rest)"
    and ltd: "length td = Suc (length rest)" by auto
  have lp': "length (fst ?p) = n" using Suc.prems(3) std by (simp add: normalise_def)
  have "length (fst (elim k ?p r)) = n" if "r \<in> set dn \<union> set rest" for r
  proof -
    have "length (fst r) = n" using Suc.prems(3) std that by auto
    then show ?thesis using lp' by (simp add: elim_def)
  qed
  then have len': "\<forall>r\<in>set ((map (elim k ?p) dn @ [?p]) @ map (elim k ?p) rest). length (fst r) = n"
    using lp' by auto
  have "\<exists>res. gauss_jordan (Suc k) f (map (elim k ?p) dn @ [?p]) (map (elim k ?p) rest) = Some res"
    using Suc.prems(1,2) ltd
    by (intro Suc.IH[OF _ _ len' reduced_step[OF k Suc.prems(3) Suc.prems(4) piv]
          trivial_kernel_step[OF k Suc.prems(3) Suc.prems(5) piv]]) simp_all
  then show ?case using piv by simp
qed

lemma mat_vec_nth:
  assumes "is_mat m n A" "length x = n" "i < m"
  shows "mat_vec A x ! i = (\<Sum>j<n. A ! i ! j * x ! j)"
  using assms by (simp add: mat_vec_def is_mat_length dot_sum[of _ n] is_mat_nth)

lemma length_mat_vec [simp]: "length (mat_vec A x) = length A"
  by (simp add: mat_vec_def)

lemma zeros_nth [simp]: "i < n \<Longrightarrow> zeros n ! i = 0"
  by (simp add: zeros_def)

lemma length_zeros [simp]: "length (zeros n) = n"
  by (simp add: zeros_def)

lemma vec_mat_unit:
  assumes "is_mat n q A" "0 < n" "i < n"
  shows "vec_mat (eye n ! i) A = A ! i"
proof (rule nth_equalityI)
  show "length (vec_mat (eye n ! i) A) = length (A ! i)"
    using assms by (simp add: length_vec_mat is_mat_nth)
next
  fix j assume "j < length (vec_mat (eye n ! i) A)"
  then have j: "j < q" using assms by (simp add: length_vec_mat)
  have "vec_mat (eye n ! i) A ! j = (\<Sum>l<n. eye n ! i ! l * A ! l ! j)"
    using assms j by (intro vec_mat_nth) (simp_all add: eye_def)
  also have "\<dots> = (\<Sum>l<n. if l = i then A ! l ! j else 0)"
    using assms by (intro sum.cong) (auto simp: eye_nth)
  also have "\<dots> = A ! i ! j" using assms by simp
  finally show "vec_mat (eye n ! i) A ! j = A ! i ! j" .
qed

lemma inv_sound:
  assumes run: "inv A = Some X" and n: "length A = n" "0 < n"
  shows "is_mat n n X \<and> matmul X A = eye n"
proof -
  from run n have A: "is_mat n n A"
    and "map_option (map snd) (gauss_jordan 0 n [] (zip A (eye n))) = Some X"
    by (auto simp: inv_def split: if_splits)
  then obtain res where res: "gauss_jordan 0 n [] (zip A (eye n)) = Some res"
    and X: "X = map snd res" by auto
  have good0: "\<forall>r\<in>set ([] @ zip A (eye n)). good_row n A r"
  proof
    fix r assume "r \<in> set ([] @ zip A (eye n))"
    then obtain i where i: "i < n" "r = (A ! i, eye n ! i)"
      using A by (auto simp: in_set_conv_nth is_mat_length eye_def)
    show "good_row n A r"
      using i A n vec_mat_unit[OF A n(2) i(1)]
      by (simp add: good_row_def is_mat_nth eye_def)
  qed
  have red0: "reduced 0 [] (zip A (eye n))" by (simp add: reduced_def)
  have l0: "length (zip A (eye n)) = n" using A by (simp add: is_mat_length eye_def)
  from gauss_jordan_sound[OF A n(2) res _ l0 good0 red0]
  have good: "\<forall>r\<in>set res. good_row n A r" and red: "reduced n res []" by simp_all
  have lres: "length res = n" using red by (simp add: reduced_def)
  have Xm: "is_mat n n X"
    using good lres unfolding X by (intro is_matI) (simp_all add: good_row_def)
  have XA: "is_mat n n (matmul X A)" by (rule is_mat_matmul[OF Xm A n(2)])
  have "matmul X A = eye n"
  proof (rule mat_eqI[OF XA is_mat_eye])
    fix i j assume ij: "i < n" "j < n"
    have "res ! i \<in> set res" using ij lres by simp
    then have "vec_mat (snd (res ! i)) A = fst (res ! i)"
      using good by (simp add: good_row_def)
    then have "matmul X A ! i ! j = fst (res ! i) ! j"
      using ij lres by (simp add: matmul_def X)
    also have "\<dots> = eye n ! i ! j"
      using red ij by (simp add: reduced_def eye_nth)
    finally show "matmul X A ! i ! j = eye n ! i ! j" .
  qed
  with Xm show ?thesis by simp
qed

lemma inv_complete:
  assumes A: "is_mat n n A" "0 < n" and inj: "full_column_rank n A"
  shows "\<exists>X. inv A = Some X"
proof -
  have len: "\<forall>r\<in>set ([] @ zip A (eye n)). length (fst r) = n"
    using A by (auto simp: is_mat_def list_all_iff dest: set_zip_leftD)
  have red0: "reduced 0 [] (zip A (eye n))" by (simp add: reduced_def)
  have l0: "length (zip A (eye n)) = n" using A by (simp add: is_mat_length eye_def)
  have tk: "trivial_kernel n ([] @ zip A (eye n))"
    unfolding trivial_kernel_def
  proof (intro allI impI)
    fix x :: vec
    assume lx: "length x = n" and z: "\<forall>r\<in>set ([] @ zip A (eye n)). dot (fst r) x = 0"
    have "mat_vec A x = zeros (length A)"
    proof (rule nth_equalityI)
      show "length (mat_vec A x) = length (zeros (length A))" by simp
    next
      fix i assume "i < length (mat_vec A x)"
      then have i: "i < n" using A by (simp add: is_mat_length)
      then have "zip A (eye n) ! i \<in> set (zip A (eye n))" using l0 by (intro nth_mem) simp
      then have "dot (fst (zip A (eye n) ! i)) x = 0" using z by simp
      then have "dot (A ! i) x = 0" using i A by (simp add: is_mat_length eye_def)
      then show "mat_vec A x ! i = zeros (length A) ! i"
        using i A by (simp add: mat_vec_def is_mat_length)
    qed
    then show "x = zeros n" using inj lx by (simp add: full_column_rank_def)
  qed
  from gauss_jordan_complete[OF _ l0 len red0 tk]
  obtain res where "gauss_jordan 0 n [] (zip A (eye n)) = Some res" by auto
  then show ?thesis using A by (simp add: inv_def is_mat_length)
qed

section \<open>Algebra of the frame operators\<close>

lemma transpose_matmul:
  assumes "is_mat m n A" "is_mat n p B" "0 < m" "0 < n" "0 < p"
  shows "transpose_m (matmul A B) = matmul (transpose_m B) (transpose_m A)"
proof (rule mat_eqI[of p m])
  have AB: "is_mat m p (matmul A B)" by (rule is_mat_matmul[OF assms(1,2,4)])
  have At: "is_mat n m (transpose_m A)" by (rule is_mat_transpose[OF assms(1,3)])
  have Bt: "is_mat p n (transpose_m B)" by (rule is_mat_transpose[OF assms(2,4)])
  show "is_mat p m (transpose_m (matmul A B))" by (rule is_mat_transpose[OF AB assms(3)])
  show "is_mat p m (matmul (transpose_m B) (transpose_m A))"
    by (rule is_mat_matmul[OF Bt At assms(4)])
  fix i j assume ij: "i < p" "j < m"
  have "transpose_m (matmul A B) ! i ! j = (\<Sum>k<n. A ! j ! k * B ! k ! i)"
    using assms ij AB by (simp add: transpose_m_nth[of m p] matmul_nth[of m n _ p])
  also have "\<dots> = (\<Sum>k<n. transpose_m B ! i ! k * transpose_m A ! k ! j)"
    using assms ij
    by (intro sum.cong) (simp_all add: transpose_m_nth[of m n A] transpose_m_nth[of n p B] mult.commute)
  also have "\<dots> = matmul (transpose_m B) (transpose_m A) ! i ! j"
    using assms ij At Bt by (simp add: matmul_nth[of p n _ m])
  finally show "transpose_m (matmul A B) ! i ! j = matmul (transpose_m B) (transpose_m A) ! i ! j" .
qed


lemma transpose_eye: "0 < n \<Longrightarrow> transpose_m (eye n) = eye n"
  by (rule mat_eqI[of n n])
    (auto simp: is_mat_eye is_mat_transpose transpose_m_nth[of n n] eye_nth)

lemma matmul_eye_left:
  assumes "is_mat n p B" "0 < n"
  shows "matmul (eye n) B = B"
proof (rule mat_eqI[of n p])
  show "is_mat n p (matmul (eye n) B)" by (rule is_mat_matmul[OF is_mat_eye assms])
  show "is_mat n p B" by fact
  fix i j assume ij: "i < n" "j < p"
  have "matmul (eye n) B ! i ! j = (\<Sum>k<n. eye n ! i ! k * B ! k ! j)"
    using assms ij by (simp add: matmul_nth[of n n _ p] is_mat_eye)
  also have "\<dots> = (\<Sum>k<n. if k = i then B ! k ! j else 0)"
    using ij by (intro sum.cong) (auto simp: eye_nth)
  also have "\<dots> = B ! i ! j" using ij by simp
  finally show "matmul (eye n) B ! i ! j = B ! i ! j" .
qed

lemma matmul_eye_right:
  assumes "is_mat m n A" "0 < n"
  shows "matmul A (eye n) = A"
proof (rule mat_eqI[of m n])
  show "is_mat m n (matmul A (eye n))" by (rule is_mat_matmul[OF assms(1) is_mat_eye assms(2)])
  show "is_mat m n A" by fact
  fix i j assume ij: "i < m" "j < n"
  have "matmul A (eye n) ! i ! j = (\<Sum>k<n. A ! i ! k * eye n ! k ! j)"
    using assms ij by (simp add: matmul_nth[of m n _ n] is_mat_eye)
  also have "\<dots> = (\<Sum>k<n. if k = j then A ! i ! k else 0)"
    using ij by (intro sum.cong) (auto simp: eye_nth)
  also have "\<dots> = A ! i ! j" using ij by simp
  finally show "matmul A (eye n) ! i ! j = A ! i ! j" .
qed

text \<open>A left inverse of a symmetric matrix is symmetric and a right inverse too.\<close>
lemma left_inverse_symmetric:
  assumes A: "is_mat n n A" "0 < n" and sym: "transpose_m A = A"
    and X: "is_mat n n X" "matmul X A = eye n"
  shows "matmul A X = eye n \<and> transpose_m X = X"
proof -
  have Xt: "is_mat n n (transpose_m X)" by (rule is_mat_transpose[OF X(1) A(2)])
  have "transpose_m (matmul X A) = matmul (transpose_m A) (transpose_m X)"
    by (rule transpose_matmul[OF X(1) A(1) A(2) A(2) A(2)])
  then have AXt: "matmul A (transpose_m X) = eye n"
    using X(2) sym A(2) by (simp add: transpose_eye)
  have "X = matmul X (matmul A (transpose_m X))"
    using AXt X(1) A(2) by (simp add: matmul_eye_right)
  also have "\<dots> = matmul (matmul X A) (transpose_m X)"
    by (rule matmul_assoc[OF X(1) A(1) Xt A(2) A(2), symmetric])
  also have "\<dots> = transpose_m X"
    using X(2) Xt A(2) by (simp add: matmul_eye_left)
  finally have "transpose_m X = X" by simp
  with AXt show ?thesis by simp
qed

lemma is_mat_T_syn:
  assumes "is_mat m n T" "0 < m"
  shows "is_mat n m (T_syn T)"
  unfolding T_syn_def by (rule is_mat_transpose[OF assms])

lemma T_syn_nth:
  assumes "is_mat m n T" "0 < m" "j < n" "i < m"
  shows "T_syn T ! j ! i = T ! i ! j"
  unfolding T_syn_def by (rule transpose_m_nth[OF assms])

lemma is_mat_S:
  assumes "is_mat m n T" "0 < m"
  shows "is_mat n n (S T)"
  unfolding S_def by (rule is_mat_matmul[OF is_mat_T_syn[OF assms] assms])

lemma S_nth:
  assumes "is_mat m n T" "0 < m" "i < n" "j < n"
  shows "S T ! i ! j = (\<Sum>k<m. T ! k ! i * T ! k ! j)"
proof -
  have "S T ! i ! j = (\<Sum>k<m. T_syn T ! i ! k * T ! k ! j)"
    unfolding S_def by (rule matmul_nth[OF is_mat_T_syn[OF assms(1,2)] assms(1,2,3,4)])
  also have "\<dots> = (\<Sum>k<m. T ! k ! i * T ! k ! j)"
    using assms by (intro sum.cong) (simp_all add: T_syn_nth[of m n])
  finally show ?thesis .
qed

lemma S_symmetric:
  assumes "is_mat m n T" "0 < m" "0 < n"
  shows "transpose_m (S T) = S T"
proof (rule mat_eqI[of n n])
  have Sm: "is_mat n n (S T)" by (rule is_mat_S[OF assms(1,2)])
  show "is_mat n n (transpose_m (S T))" by (rule is_mat_transpose[OF Sm assms(3)])
  show "is_mat n n (S T)" by fact
  fix i j assume "i < n" "j < n"
  then show "transpose_m (S T) ! i ! j = S T ! i ! j"
    using assms Sm by (simp add: transpose_m_nth[of n n] S_nth[of m n] mult.commute)
qed

lemma dot_self_zero:
  assumes "dot v v = 0"
  shows "v = zeros (length v)"
proof (rule nth_equalityI)
  show "length v = length (zeros (length v))" by simp
next
  fix i assume i: "i < length v"
  have "(\<Sum>k<length v. v ! k * v ! k) = 0"
    using assms by (simp add: dot_sum[of v "length v" v])
  then have "\<forall>k\<in>{..<length v}. v ! k * v ! k = 0"
    by (subst (asm) sum_nonneg_eq_0_iff) simp_all
  then show "v ! i = zeros (length v) ! i" using i by simp
qed

text \<open>\<open>\<langle>x, S x\<rangle> = \<parallel>T\<^sup>* x\<parallel>\<^sup>2\<close>: the frame operator is positive.\<close>
lemma dot_S:
  assumes T: "is_mat m n T" "0 < m" and x: "length x = n" and y: "length y = n"
  shows "dot y (mat_vec (S T) x) = dot (mat_vec T y) (mat_vec T x)"
proof -
  have Sm: "is_mat n n (S T)" by (rule is_mat_S[OF T])
  have "dot y (mat_vec (S T) x) = (\<Sum>i<n. y ! i * mat_vec (S T) x ! i)"
    using y Sm by (intro dot_sum) (simp_all add: is_mat_length)
  also have "\<dots> = (\<Sum>i<n. y ! i * (\<Sum>j<n. (\<Sum>k<m. T ! k ! i * T ! k ! j) * x ! j))"
    using Sm x T by (intro sum.cong) (simp_all add: mat_vec_nth[of n n] S_nth[of m n])
  also have "\<dots> = (\<Sum>i<n. \<Sum>j<n. \<Sum>k<m. (T ! k ! i * y ! i) * (T ! k ! j * x ! j))"
    by (simp add: sum_distrib_left sum_distrib_right algebra_simps)
  also have "\<dots> = (\<Sum>i<n. \<Sum>k<m. \<Sum>j<n. (T ! k ! i * y ! i) * (T ! k ! j * x ! j))"
    by (intro sum.cong refl sum.swap)
  also have "\<dots> = (\<Sum>k<m. \<Sum>i<n. \<Sum>j<n. (T ! k ! i * y ! i) * (T ! k ! j * x ! j))"
    by (rule sum.swap)
  also have "\<dots> = (\<Sum>k<m. (\<Sum>i<n. T ! k ! i * y ! i) * (\<Sum>j<n. T ! k ! j * x ! j))"
    by (simp add: sum_product)
  also have "\<dots> = (\<Sum>k<m. mat_vec T y ! k * mat_vec T x ! k)"
    using T x y by (intro sum.cong) (simp_all add: mat_vec_nth[of m n])
  also have "\<dots> = dot (mat_vec T y) (mat_vec T x)"
    using T by (intro dot_sum[symmetric]) (simp_all add: is_mat_length)
  finally show ?thesis .
qed

lemma S_full_rank_gen:
  assumes T: "is_mat m n T" "0 < m" and inj: "full_column_rank n T"
  shows "full_column_rank n (S T)"
  unfolding full_column_rank_def
proof (intro allI impI)
  fix x :: vec
  assume x: "length x = n" and z: "mat_vec (S T) x = zeros (length (S T))"
  have Sm: "is_mat n n (S T)" by (rule is_mat_S[OF T])
  have "dot x (mat_vec (S T) x) = (\<Sum>i<n. x ! i * zeros n ! i)"
    using z Sm x by (simp add: is_mat_length dot_sum[of x n])
  then have "dot (mat_vec T x) (mat_vec T x) = 0"
    using dot_S[OF T x x] by simp
  from dot_self_zero[OF this] have "mat_vec T x = zeros (length T)" by simp
  then show "x = zeros n" using inj x by (simp add: full_column_rank_def)
qed

lemma S_full_rank:
  assumes "valid_frame m n T"
  shows "full_column_rank n (S T)"
  using assms by (intro S_full_rank_gen[of m]) (auto simp: valid_frame_def)

text \<open>On a valid frame \<^verbatim>\<open>inv(S)\<close> returns, and what it returns is the two-sided inverse.\<close>
lemma S_inv_exists_gen:
  assumes T: "is_mat m n T" "0 < m" "0 < n" and inj: "full_column_rank n T"
  shows "\<exists>X. inv (S T) = Some X"
  by (rule inv_complete[OF is_mat_S[OF T(1,2)] T(3) S_full_rank_gen[OF T(1,2) inj]])

lemma S_inv_exists:
  assumes "valid_frame m n T"
  shows "\<exists>X. inv (S T) = Some X"
  using assms by (intro S_inv_exists_gen[of m n]) (auto simp: valid_frame_def)

lemma S_inv_props:
  assumes T: "is_mat m n T" "0 < m" "0 < n" and X: "inv (S T) = Some X"
  shows "is_mat n n X" "matmul X (S T) = eye n" "matmul (S T) X = eye n" "transpose_m X = X"
proof -
  have Sm: "is_mat n n (S T)" by (rule is_mat_S[OF T(1,2)])
  from inv_sound[OF X is_mat_length[OF Sm] T(3)]
  show l: "is_mat n n X" "matmul X (S T) = eye n" by simp_all
  from left_inverse_symmetric[OF Sm T(3) S_symmetric[OF T] l]
  show "matmul (S T) X = eye n" "transpose_m X = X" by simp_all
qed

section \<open>The inverse on both sides\<close>

lemma trivial_kernel_b_step:
  assumes len: "\<forall>r\<in>set (dn @ td). length (snd r) = n"
    and tk: "trivial_kernel_b n (dn @ td)"
    and piv: "find_pivot k td = Some (p, rest)"
  shows "trivial_kernel_b n ((map (elim k (normalise k p)) dn @ [normalise k p]) @
           map (elim k (normalise k p)) rest)"
  unfolding trivial_kernel_b_def
proof (intro allI impI)
  let ?p = "normalise k p"
  fix x :: vec
  assume lx: "length x = n"
    and z: "\<forall>r\<in>set ((map (elim k ?p) dn @ [?p]) @ map (elim k ?p) rest). dot (snd r) x = 0"
  from find_pivot_Some[OF piv] have pk: "fst p ! k \<noteq> 0" and std: "set td = insert p (set rest)"
    by auto
  have lp: "length (snd p) = n" using len std by auto
  have lp': "length (snd ?p) = n" using lp by (simp add: normalise_def)
  have zp0: "dot (snd ?p) x = 0" using z by simp
  then have zp': "dot (scale (1 / fst p ! k) (snd p)) x = 0" by (simp add: normalise_def)
  have zp: "dot (snd p) x = 0"
    using zp' pk lp lx by (simp add: dot_scale)
  have zr: "dot (snd r) x = 0" if "r \<in> set dn \<union> set rest" for r
  proof -
    have lr: "length (snd r) = n" using len std that by auto
    have "dot (snd (elim k ?p r)) x = 0" using z that by auto
    then have "dot (axpy (fst r ! k) (snd ?p) (snd r)) x = 0" by (simp add: elim_def)
    then show ?thesis
      using lr lp' lx zp0 by (simp add: dot_axpy)
  qed
  have "\<forall>r\<in>set (dn @ td). dot (snd r) x = 0"
    using zr zp std by auto
  then show "x = zeros n"
    using tk lx unfolding trivial_kernel_b_def by blast
qed

lemma gauss_jordan_kernel_b:
  assumes run: "gauss_jordan k f dn td = Some res"
    and len: "\<forall>r\<in>set (dn @ td). length (snd r) = n"
    and tk: "trivial_kernel_b n (dn @ td)"
    and ltd: "length td = f"
  shows "trivial_kernel_b n res"
  using run len tk ltd
proof (induction f arbitrary: k dn td)
  case 0
  then show ?case by (auto simp: trivial_kernel_b_def)
next
  case (Suc f)
  from Suc.prems(1) obtain p rest where piv: "find_pivot k td = Some (p, rest)"
    and run': "gauss_jordan (Suc k) f (map (elim k (normalise k p)) dn @ [normalise k p])
                 (map (elim k (normalise k p)) rest) = Some res"
    by (auto split: option.splits)
  let ?p = "normalise k p"
  from find_pivot_Some[OF piv] have std: "set td = insert p (set rest)" by auto
  have lp': "length (snd ?p) = n" using Suc.prems(2) std by (simp add: normalise_def)
  have "length (snd (elim k ?p r)) = n" if "r \<in> set dn \<union> set rest" for r
  proof -
    have "length (snd r) = n" using Suc.prems(2) std that by auto
    then show ?thesis using lp' by (simp add: elim_def)
  qed
  then have len': "\<forall>r\<in>set ((map (elim k ?p) dn @ [?p]) @ map (elim k ?p) rest). length (snd r) = n"
    using lp' by auto
  have lrest: "length (map (elim k ?p) rest) = f"
    using find_pivot_Some[OF piv] Suc.prems(4) by simp
  show ?case
    by (rule Suc.IH[OF run' len' trivial_kernel_b_step[OF Suc.prems(2) Suc.prems(3) piv] lrest])
qed

lemma dot_unit:
  assumes "length x = n" "i < n"
  shows "dot (eye n ! i) x = x ! i"
proof -
  have "dot (eye n ! i) x = (\<Sum>l<n. eye n ! i ! l * x ! l)"
    using assms by (intro dot_sum) (simp_all add: eye_def)
  also have "\<dots> = (\<Sum>l<n. if l = i then x ! l else 0)"
    using assms by (intro sum.cong) (auto simp: eye_nth)
  also have "\<dots> = x ! i" using assms by simp
  finally show ?thesis .
qed

lemma inv_injective:
  assumes run: "inv A = Some X" and n: "length A = n" "0 < n"
  shows "full_column_rank n X"
proof -
  from run n have A: "is_mat n n A"
    and "map_option (map snd) (gauss_jordan 0 n [] (zip A (eye n))) = Some X"
    by (auto simp: inv_def split: if_splits)
  then obtain res where res: "gauss_jordan 0 n [] (zip A (eye n)) = Some res"
    and X: "X = map snd res" by auto
  have l0: "length (zip A (eye n)) = n" using A by (simp add: is_mat_length eye_def)
  have len: "\<forall>r\<in>set ([] @ zip A (eye n)). length (snd r) = n"
    by (auto simp: eye_def dest!: set_zip_rightD)
  have tk: "trivial_kernel_b n ([] @ zip A (eye n))"
    unfolding trivial_kernel_b_def
  proof (intro allI impI)
    fix x :: vec
    assume lx: "length x = n" and z: "\<forall>r\<in>set ([] @ zip A (eye n)). dot (snd r) x = 0"
    show "x = zeros n"
    proof (rule nth_equalityI)
      show "length x = length (zeros n)" using lx by simp
    next
      fix i assume "i < length x"
      then have i: "i < n" using lx by simp
      then have "zip A (eye n) ! i \<in> set (zip A (eye n))" using l0 by (intro nth_mem) simp
      then have "dot (snd (zip A (eye n) ! i)) x = 0" using z by simp
      then have "dot (eye n ! i) x = 0" using i A by (simp add: is_mat_length eye_def)
      then show "x ! i = zeros n ! i" using dot_unit[OF lx i] i by simp
    qed
  qed
  from gauss_jordan_kernel_b[OF res len tk l0] have tkr: "trivial_kernel_b n res" .
  from inv_sound[OF run n] have Xm: "is_mat n n X" by simp
  show ?thesis
    unfolding full_column_rank_def
  proof (intro allI impI)
    fix x :: vec
    assume lx: "length x = n" and z: "mat_vec X x = zeros (length X)"
    have "dot (snd r) x = 0" if "r \<in> set res" for r
    proof -
      from that obtain i where i: "i < length res" "r = res ! i" by (auto simp: in_set_conv_nth)
      have "mat_vec X x ! i = dot (snd r) x" using i by (simp add: X mat_vec_def)
      then show ?thesis using z i Xm by (simp add: X)
    qed
    then show "x = zeros n" using tkr lx by (auto simp: trivial_kernel_b_def)
  qed
qed

lemma mat_vec_axpy:
  assumes "is_mat q n A" "length u = n" "length v = n"
  shows "mat_vec A (axpy c v u) = axpy c (mat_vec A v) (mat_vec A u)"
proof (rule nth_equalityI)
  show "length (mat_vec A (axpy c v u)) = length (axpy c (mat_vec A v) (mat_vec A u))" by simp
next
  fix i assume "i < length (mat_vec A (axpy c v u))"
  then have i: "i < q" using assms by (simp add: is_mat_length)
  have lr: "length (A ! i) = n" by (rule is_mat_nth[OF assms(1) i])
  have "dot (A ! i) (axpy c v u) = dot (axpy c v u) (A ! i)"
    using assms lr by (intro dot_commute) simp
  also have "\<dots> = dot u (A ! i) - c * dot v (A ! i)"
    using assms lr by (intro dot_axpy) simp_all
  also have "\<dots> = dot (A ! i) u - c * dot (A ! i) v"
    using assms lr dot_commute[of u "A ! i"] dot_commute[of v "A ! i"] by simp
  finally show "mat_vec A (axpy c v u) ! i = axpy c (mat_vec A v) (mat_vec A u) ! i"
    using i assms by (simp add: mat_vec_def is_mat_length)
qed

lemma inj_cancel:
  assumes X: "is_mat q n X" "full_column_rank n X"
    and uv: "length u = n" "length v = n" "mat_vec X u = mat_vec X v"
  shows "u = v"
proof -
  have "mat_vec X (axpy 1 v u) = axpy 1 (mat_vec X v) (mat_vec X u)"
    by (rule mat_vec_axpy[OF X(1) uv(1,2)])
  also have "\<dots> = zeros (length X)"
    unfolding uv(3) by (intro nth_equalityI) simp_all
  finally have z: "mat_vec X (axpy 1 v u) = zeros (length X)" .
  have l: "length (axpy 1 v u) = n" using uv by simp
  from X(2) l z have w: "axpy 1 v u = zeros n"
    unfolding full_column_rank_def by blast
  show ?thesis
  proof (rule nth_equalityI)
    show "length u = length v" using uv by simp
  next
    fix i assume "i < length u"
    then have i: "i < n" using uv by simp
    have "axpy 1 v u ! i = 0" unfolding w using i by simp
    then show "u ! i = v ! i" using i uv by simp
  qed
qed

lemma mat_vec_col:
  assumes "is_mat m n A" "is_mat n p B" "0 < n" "j < p"
  shows "mat_vec A (col B j) = col (matmul A B) j"
proof (rule nth_equalityI)
  show "length (mat_vec A (col B j)) = length (col (matmul A B) j)"
    by (simp add: length_col matmul_def)
next
  fix i assume "i < length (mat_vec A (col B j))"
  then have i: "i < m" using assms by (simp add: is_mat_length)
  have "mat_vec A (col B j) ! i = (\<Sum>k<n. A ! i ! k * col B j ! k)"
    using assms i by (intro mat_vec_nth[of m n]) (simp_all add: length_col is_mat_length)
  also have "\<dots> = (\<Sum>k<n. A ! i ! k * B ! k ! j)"
    using assms by (intro sum.cong) (simp_all add: col_nth is_mat_length)
  also have "\<dots> = matmul A B ! i ! j"
    using assms i by (simp add: matmul_nth[of m n _ p])
  also have "\<dots> = col (matmul A B) j ! i"
    using i assms by (simp add: col_nth matmul_def is_mat_length)
  finally show "mat_vec A (col B j) ! i = col (matmul A B) j ! i" .
qed

lemma left_cancel:
  assumes X: "is_mat q n X" "full_column_rank n X" "0 < n"
    and M: "is_mat n p M" and N: "is_mat n p N"
    and eq: "matmul X M = matmul X N"
  shows "M = N"
proof (rule mat_eqI[OF M N])
  fix i j assume ij: "i < n" "j < p"
  have "mat_vec X (col M j) = col (matmul X M) j"
    by (rule mat_vec_col[OF X(1) M X(3) ij(2)])
  also have "\<dots> = col (matmul X N) j" by (simp only: eq)
  also have "\<dots> = mat_vec X (col N j)"
    by (rule mat_vec_col[OF X(1) N X(3) ij(2), symmetric])
  finally have e: "mat_vec X (col M j) = mat_vec X (col N j)" .
  have lM: "length (col M j) = n" using M by (simp add: length_col is_mat_length)
  have lN: "length (col N j) = n" using N by (simp add: length_col is_mat_length)
  have "col M j = col N j" by (rule inj_cancel[OF X(1,2) lM lN e])
  then have "col M j ! i = col N j ! i" by (rule arg_cong)
  then show "M ! i ! j = N ! i ! j"
    using ij M N by (simp add: col_nth is_mat_length)
qed

text \<open>What \<^verbatim>\<open>inv\<close> returns is the inverse on both sides.\<close>
lemma inv_two_sided:
  assumes run: "inv A = Some X" and n: "length A = n" "0 < n"
  shows "is_mat n n X" "matmul X A = eye n" "matmul A X = eye n"
proof -
  from run n have A: "is_mat n n A" by (auto simp: inv_def split: if_splits)
  from inv_sound[OF run n] show Xm: "is_mat n n X" and XA: "matmul X A = eye n" by simp_all
  have AX: "is_mat n n (matmul A X)" by (rule is_mat_matmul[OF A Xm n(2)])
  have "matmul X (matmul A X) = matmul (matmul X A) X"
    by (rule matmul_assoc[OF Xm A Xm n(2) n(2), symmetric])
  also have "\<dots> = matmul X (eye n)"
    using XA Xm n(2) by (simp add: matmul_eye_left matmul_eye_right)
  finally show "matmul A X = eye n"
    by (rule left_cancel[OF Xm inv_injective[OF run n] n(2) AX is_mat_eye])
qed

lemma mat_vec_matmul:
  assumes "is_mat m n A" "is_mat n p B" "0 < n" "length x = p"
  shows "mat_vec (matmul A B) x = mat_vec A (mat_vec B x)"
proof (rule nth_equalityI)
  show "length (mat_vec (matmul A B) x) = length (mat_vec A (mat_vec B x))"
    by (simp add: matmul_def)
next
  fix i assume "i < length (mat_vec (matmul A B) x)"
  then have i: "i < m" using assms by (simp add: matmul_def is_mat_length)
  have AB: "is_mat m p (matmul A B)" by (rule is_mat_matmul[OF assms(1,2,3)])
  have "mat_vec (matmul A B) x ! i = (\<Sum>j<p. (\<Sum>k<n. A ! i ! k * B ! k ! j) * x ! j)"
    using assms i AB by (simp add: mat_vec_nth[of m p] matmul_nth[of m n _ p])
  also have "\<dots> = (\<Sum>j<p. \<Sum>k<n. A ! i ! k * (B ! k ! j * x ! j))"
    by (simp add: sum_distrib_right mult.assoc)
  also have "\<dots> = (\<Sum>k<n. \<Sum>j<p. A ! i ! k * (B ! k ! j * x ! j))"
    by (rule sum.swap)
  also have "\<dots> = (\<Sum>k<n. A ! i ! k * (\<Sum>j<p. B ! k ! j * x ! j))"
    by (simp add: sum_distrib_left)
  also have "\<dots> = (\<Sum>k<n. A ! i ! k * mat_vec B x ! k)"
    using assms by (intro sum.cong) (simp_all add: mat_vec_nth[of n p])
  also have "\<dots> = mat_vec A (mat_vec B x) ! i"
    using assms i by (simp add: mat_vec_nth[of m n] is_mat_length)
  finally show "mat_vec (matmul A B) x ! i = mat_vec A (mat_vec B x) ! i" .
qed

lemma mat_vec_eye:
  assumes "length x = n"
  shows "mat_vec (eye n) x = x"
proof (rule nth_equalityI)
  show "length (mat_vec (eye n) x) = length x" using assms by (simp add: eye_def)
next
  fix i assume "i < length (mat_vec (eye n) x)"
  then have i: "i < n" by (simp add: eye_def)
  then have "mat_vec (eye n) x ! i = dot (eye n ! i) x" by (simp add: mat_vec_def eye_def)
  then show "mat_vec (eye n) x ! i = x ! i" using dot_unit[OF assms i] by simp
qed

lemma mat_vec_zeros:
  assumes "is_mat m n A"
  shows "mat_vec A (zeros n) = zeros m"
proof (rule nth_equalityI)
  show "length (mat_vec A (zeros n)) = length (zeros m)" using assms by (simp add: is_mat_length)
next
  fix i assume "i < length (mat_vec A (zeros n))"
  then have i: "i < m" using assms by (simp add: is_mat_length)
  have "mat_vec A (zeros n) ! i = (\<Sum>j<n. A ! i ! j * zeros n ! j)"
    using assms i by (intro mat_vec_nth[of m n]) simp_all
  also have "\<dots> = 0" by (intro sum.neutral) simp
  finally show "mat_vec A (zeros n) ! i = zeros m ! i" using i by simp
qed

text \<open>A matrix with a left inverse has full column rank.\<close>
lemma left_inverse_full_rank:
  assumes A: "is_mat m n A" "0 < m" and L: "is_mat n m L" "matmul L A = eye n"
  shows "full_column_rank n A"
  unfolding full_column_rank_def
proof (intro allI impI)
  fix x :: vec
  assume lx: "length x = n" and z: "mat_vec A x = zeros (length A)"
  have "x = mat_vec (matmul L A) x" using L(2) lx by (simp add: mat_vec_eye)
  also have "\<dots> = mat_vec L (mat_vec A x)" by (rule mat_vec_matmul[OF L(1) A(1) A(2) lx])
  also have "\<dots> = zeros n" using z A(1) mat_vec_zeros[OF L(1)] by (simp add: is_mat_length)
  finally show "x = zeros n" .
qed


section \<open>Example frames and the symmetry of the operators\<close>



lemma G_nth:
  assumes "is_mat m n T" "0 < m" "0 < n" "i < m" "j < m"
  shows "G T ! i ! j = (\<Sum>k<n. T ! i ! k * T ! j ! k)"
proof -
  have "G T ! i ! j = (\<Sum>k<n. T ! i ! k * T_syn T ! k ! j)"
    unfolding G_def by (rule matmul_nth[OF assms(1) is_mat_T_syn[OF assms(1,2)] assms(3,4,5)])
  also have "\<dots> = (\<Sum>k<n. T ! i ! k * T ! j ! k)"
    using assms by (intro sum.cong) (simp_all add: T_syn_nth[of m n])
  finally show ?thesis .
qed

lemma is_mat_G:
  assumes "is_mat m n T" "0 < m" "0 < n"
  shows "is_mat m m (G T)"
  unfolding G_def by (rule is_mat_matmul[OF assms(1) is_mat_T_syn[OF assms(1,2)] assms(3)])

lemma G_symmetric:
  assumes "is_mat m n T" "0 < m" "0 < n"
  shows "transpose_m (G T) = G T"
proof (rule mat_eqI[of m m])
  have Gm: "is_mat m m (G T)" by (rule is_mat_G[OF assms])
  show "is_mat m m (transpose_m (G T))" by (rule is_mat_transpose[OF Gm assms(2)])
  show "is_mat m m (G T)" by fact
  fix i j assume "i < m" "j < m"
  then show "transpose_m (G T) ! i ! j = G T ! i ! j"
    using assms Gm by (simp add: transpose_m_nth[of m m] G_nth[of m n] mult.commute)
qed

lemma self_adjoint_iff:
  assumes "is_mat k k M" "0 < k"
  shows "self_adjoint M \<longleftrightarrow> (\<forall>i<k. \<forall>j<k. M ! j ! i = M ! i ! j)"
proof -
  have Mt: "is_mat k k (transpose_m M)" by (rule is_mat_transpose[OF assms])
  have "self_adjoint M \<longleftrightarrow> (\<forall>i<k. \<forall>j<k. transpose_m M ! i ! j = M ! i ! j)"
    using assms Mt
    by (auto simp: self_adjoint_def np_all_def np_eq_def list_all_length is_mat_def)
  also have "\<dots> \<longleftrightarrow> (\<forall>i<k. \<forall>j<k. M ! j ! i = M ! i ! j)"
    using assms by (simp add: transpose_m_nth[of k k])
  finally show ?thesis .
qed

lemma self_adjoint_refl:
  assumes "is_mat k k M" "0 < k" "transpose_m M = M"
  shows "self_adjoint M"
  using assms by (auto simp: self_adjoint_def np_all_def np_eq_def list_all_length is_mat_def)

section \<open>Adding a null-space vector to a dual\<close>








section \<open>Restriction to a subframe\<close>









section \<open>The tight frame\<close>




section \<open>The redundancy diagnostics\<close>


lemma check_condition_nth:
  assumes T: "is_mat m n T" "0 < m" "0 < n" and X: "inv (S T) = Some X"
  shows "\<exists>d. check_condition T = Some d \<and> length d = m \<and>
           (\<forall>i<m. d ! i = dot (T ! i) (mat_vec X (T ! i)))"
proof -
  note Xp = S_inv_props[OF T X]
  have Ts: "is_mat n m (T_syn T)" by (rule is_mat_T_syn[OF T(1,2)])
  define D where "D = matmul X (transpose_m T)"
  have Dm: "is_mat n m D" unfolding D_def using is_mat_matmul[OF Xp(1) Ts T(3)] by (simp add: T_syn_def)
  have TD: "is_mat m m (matmul T D)" by (rule is_mat_matmul[OF T(1) Dm T(3)])
  have cc: "check_condition T = Some (np_diag (matmul T D))"
    using X by (simp add: check_condition_def T_dual_syn_dep_def S_dep_inv_def S_dep_def S_def
        T_syn_def D_def)
  have len: "length (np_diag (matmul T D)) = m"
    using TD T(2) by (simp add: np_diag_def ncols_is_mat is_mat_length)
  have "np_diag (matmul T D) ! i = dot (T ! i) (mat_vec X (T ! i))" if i: "i < m" for i
  proof -
    have li: "length (T ! i) = n" by (rule is_mat_nth[OF T(1) i])
    have "np_diag (matmul T D) ! i = matmul T D ! i ! i"
      using i TD T(2) by (simp add: np_diag_def ncols_is_mat is_mat_length)
    also have "\<dots> = (\<Sum>k<n. T ! i ! k * D ! k ! i)"
      by (rule matmul_nth[OF T(1) Dm T(3) i i])
    also have "\<dots> = (\<Sum>k<n. T ! i ! k * mat_vec X (T ! i) ! k)"
    proof (intro sum.cong refl)
      fix k assume "k \<in> {..<n}"
      then have k: "k < n" by simp
      have "D ! k ! i = (\<Sum>l<n. X ! k ! l * T_syn T ! l ! i)"
        unfolding D_def T_syn_def[symmetric] by (rule matmul_nth[OF Xp(1) Ts T(3) k i])
      also have "\<dots> = (\<Sum>l<n. X ! k ! l * T ! i ! l)"
        using i by (intro sum.cong) (simp_all add: T_syn_nth[OF T(1,2)])
      also have "\<dots> = mat_vec X (T ! i) ! k"
        by (rule mat_vec_nth[OF Xp(1) li k, symmetric])
      finally show "T ! i ! k * D ! k ! i = T ! i ! k * mat_vec X (T ! i) ! k" by simp
    qed
    also have "\<dots> = dot (T ! i) (mat_vec X (T ! i))"
      using li Xp(1) by (intro dot_sum[symmetric]) (simp_all add: is_mat_length)
    finally show ?thesis .
  qed
  with cc len show ?thesis by simp
qed





section \<open>Counting the essential elements\<close>

lemma classify_conv:
  "check_condition T = Some d \<Longrightarrow>
   classify e T = Some (map (\<lambda>d. if \<bar>d - 1\<bar> < e then essential else removable) d)"
  by (simp add: classify_def)


lemma frame21_valid: "valid_frame 2 1 [[1], [1]]"
proof -
  have "full_column_rank 1 [[1], [1]]"
    unfolding full_column_rank_def
  proof (intro allI impI)
    fix x :: vec
    assume "length x = 1"
    then obtain a where x: "x = [a]" by (cases x) auto
    assume "mat_vec [[1], [1]] x = zeros (length [[1], [1::real]])"
    then show "x = zeros 1"
      unfolding x by (simp add: mat_vec_def dot_def zeros_def)
  qed
  then show ?thesis
    by (simp add: valid_frame_def is_mat_def)
qed

section \<open>The frame with one dependent vector\<close>

lemma mat_vec_append: "mat_vec (A @ B) x = mat_vec A x @ mat_vec B x"
  by (simp add: mat_vec_def)






section \<open>The dimension of the null space\<close>




lemma dot_zeros [simp]: "dot (zeros n) (zeros n) = 0"
  by (simp add: dot_sum[of _ n])

section \<open>Eigenvalues of symmetric matrices\<close>

lemma frame_bounds_ex: "frame_bounds [4, 1, 2] = (1, 4)"
  by (simp add: frame_bounds_def)












section \<open>Eigenvalues of the inverse frame operator\<close>




section \<open>Counting eigenvalues\<close>




section \<open>Eigenvalues of the Gram matrix\<close>







section \<open>Uniqueness of the inverse and its eigenvalues\<close>

lemma inv_Some_iff:
  assumes A: "is_mat n n A" "0 < n"
  shows "(\<exists>X. inv A = Some X) \<longleftrightarrow> full_column_rank n A"
proof
  assume "\<exists>X. inv A = Some X"
  then obtain X where X: "inv A = Some X" by auto
  note Xp = inv_two_sided[OF X is_mat_length[OF A(1)] A(2)]
  show "full_column_rank n A" by (rule left_inverse_full_rank[OF A Xp(1,2)])
next
  assume "full_column_rank n A"
  then show "\<exists>X. inv A = Some X" by (rule inv_complete[OF A])
qed

text \<open>The result does not depend on the pivots: any left inverse is what \<^verbatim>\<open>inv\<close> returns.\<close>
lemma inv_unique:
  assumes X: "inv A = Some X" and n: "length A = n" "0 < n"
    and Y: "is_mat n n Y" "matmul Y A = eye n"
  shows "Y = X"
proof -
  from X n have A: "is_mat n n A" by (auto simp: inv_def split: if_splits)
  note Xp = inv_two_sided[OF X n]
  have "Y = matmul Y (eye n)" by (rule matmul_eye_right[OF Y(1) n(2), symmetric])
  also have "\<dots> = matmul Y (matmul A X)" by (simp only: Xp(3))
  also have "\<dots> = matmul (matmul Y A) X"
    by (rule matmul_assoc[OF Y(1) A Xp(1) n(2) n(2), symmetric])
  also have "\<dots> = matmul (eye n) X" by (simp only: Y(2))
  also have "\<dots> = X" by (rule matmul_eye_left[OF Xp(1) n(2)])
  finally show ?thesis .
qed



section \<open>A frame of many vectors\<close>

lemma simplex_frame_rows:
  assumes "0 < N"
  shows "is_mat (Suc N) N (simplex_frame N)"
    and "\<And>i. i < N \<Longrightarrow> simplex_frame N ! i = eye N ! i"
    and "simplex_frame N ! N = replicate N 1"
proof -
  have le: "length (eye N) = N" by (simp add: eye_def)
  show r: "simplex_frame N ! i = eye N ! i" if "i < N" for i
    using that le by (simp add: simplex_frame_def nth_append)
  show l: "simplex_frame N ! N = replicate N 1"
    using le by (simp add: simplex_frame_def nth_append)
  show "is_mat (Suc N) N (simplex_frame N)"
  proof (rule is_matI)
    show "length (simplex_frame N) = Suc N" using le by (simp add: simplex_frame_def)
    fix i assume "i < Suc N"
    then show "length (simplex_frame N ! i) = N"
      using r[of i] l is_mat_nth[OF is_mat_eye, of i N] by (cases "i = N") simp_all
  qed
qed

lemma simplex_frame_entry:
  assumes "0 < N" "k < Suc N" "j < N"
  shows "simplex_frame N ! k ! j = (if k = N then 1 else if k = j then 1 else 0)"
  using assms simplex_frame_rows(2,3)[OF assms(1)]
  by (cases "k = N") (simp_all add: eye_nth)

lemma simplex_frame_valid:
  assumes "0 < N"
  shows "valid_frame (Suc N) N (simplex_frame N)"
proof -
  note R = simplex_frame_rows[OF assms]
  have "full_column_rank N (simplex_frame N)"
    unfolding full_column_rank_def
  proof (intro allI impI)
    fix x :: vec
    assume lx: "length x = N"
      and z: "mat_vec (simplex_frame N) x = zeros (length (simplex_frame N))"
    show "x = zeros N"
    proof (rule nth_equalityI)
      show "length x = length (zeros N)" using lx by simp
    next
      fix i assume "i < length x"
      then have i: "i < N" using lx by simp
      have "mat_vec (simplex_frame N) x ! i = 0"
        unfolding z using i R(1) by (simp add: is_mat_length)
      then have "dot (eye N ! i) x = 0"
        using i R(1) R(2)[OF i] by (simp add: mat_vec_def is_mat_length)
      then show "x ! i = zeros N ! i" using dot_unit[OF lx i] i by simp
    qed
  qed
  then show ?thesis using R(1) assms by (simp add: valid_frame_def)
qed

lemma simplex_S_entry:
  assumes N: "0 < N" and ij: "i < N" "j < N"
  shows "S (simplex_frame N) ! i ! j = (if i = j then 1 else 0) + 1"
proof -
  note R = simplex_frame_rows[OF N]
  have "S (simplex_frame N) ! i ! j =
        (\<Sum>k<Suc N. simplex_frame N ! k ! i * simplex_frame N ! k ! j)"
    by (rule S_nth[OF R(1) _ ij]) simp
  also have "\<dots> = (\<Sum>k<N. simplex_frame N ! k ! i * simplex_frame N ! k ! j) + 1"
    using ij N by (simp add: simplex_frame_entry)
  also have "(\<Sum>k<N. simplex_frame N ! k ! i * simplex_frame N ! k ! j) =
             (\<Sum>k<N. if k = i then (if i = j then 1 else 0) else 0)"
    using ij N by (intro sum.cong refl) (auto simp: simplex_frame_entry)
  also have "\<dots> = (if i = j then 1 else 0)" using ij by simp
  finally show ?thesis .
qed

lemma simplex_S_inverse:
  assumes N: "0 < N"
  defines "Y \<equiv> map (\<lambda>i. map (\<lambda>j. (if i = j then 1 else 0) - 1 / (real N + 1)) [0..<N]) [0..<N]"
  shows "inv (S (simplex_frame N)) = Some Y"
proof -
  note R = simplex_frame_rows[OF N]
  have Sm: "is_mat N N (S (simplex_frame N))" by (rule is_mat_S[OF R(1)]) simp
  have Ym: "is_mat N N Y" by (intro is_matI) (simp_all add: Y_def)
  have Yn: "Y ! i ! j = (if i = j then 1 else 0) - 1 / (real N + 1)" if "i < N" "j < N" for i j
    using that by (simp add: Y_def)
  have YS: "matmul Y (S (simplex_frame N)) = eye N"
  proof (rule mat_eqI[OF is_mat_matmul[OF Ym Sm N] is_mat_eye])
    fix i j assume ij: "i < N" "j < N"
    let ?c = "1 / (real N + 1)"
    have "matmul Y (S (simplex_frame N)) ! i ! j =
          (\<Sum>l<N. Y ! i ! l * S (simplex_frame N) ! l ! j)"
      by (rule matmul_nth[OF Ym Sm N ij])
    also have "\<dots> = (\<Sum>l<N. ((if i = l then 1 else 0) - ?c) * ((if l = j then 1 else 0) + 1))"
      using ij by (intro sum.cong refl) (simp add: Yn simplex_S_entry[OF N])
    also have "\<dots> = (\<Sum>l<N. (if l = i then (if i = j then 1 else 0) + 1 else 0)
                        - (if l = j then ?c else 0) - ?c)"
      by (intro sum.cong refl) (auto simp: algebra_simps)
    also have "\<dots> = (\<Sum>l<N. if l = i then (if i = j then 1 else 0) + 1 else 0)
                        - (\<Sum>l<N. if l = j then ?c else 0) - (\<Sum>l<N. ?c)"
      by (simp only: sum_subtractf)
    also have "\<dots> = (if i = j then 1 else 0) + 1 - ?c - real N * ?c"
      using ij by simp
    also have "\<dots> = (if i = j then 1 else 0)"
    proof -
      have "0 < real N + 1" by simp
      then have "?c + real N * ?c = 1" by (simp add: field_simps)
      then show ?thesis by simp
    qed
    finally show "matmul Y (S (simplex_frame N)) ! i ! j = eye N ! i ! j"
      using ij by (simp add: eye_nth)
  qed
  have inj: "full_column_rank N (simplex_frame N)"
    using simplex_frame_valid[OF N] by (simp add: valid_frame_def)
  from S_inv_exists[OF simplex_frame_valid[OF N]] obtain X
    where X: "inv (S (simplex_frame N)) = Some X" by auto
  from inv_unique[OF X is_mat_length[OF Sm] N Ym YS] X show ?thesis by simp
qed

lemma simplex_diag:
  assumes N: "0 < N" and i: "i < Suc N"
  defines "Y \<equiv> map (\<lambda>i. map (\<lambda>j. (if i = j then 1 else 0) - 1 / (real N + 1)) [0..<N]) [0..<N]"
  shows "dot (simplex_frame N ! i) (mat_vec Y (simplex_frame N ! i)) = 1 - 1 / (real N + 1)"
proof -
  note R = simplex_frame_rows[OF N]
  let ?c = "1 / (real N + 1)"
  let ?f = "simplex_frame N ! i"
  have Ym: "is_mat N N Y" by (intro is_matI) (simp_all add: Y_def)
  have Yn: "Y ! k ! j = (if k = j then 1 else 0) - ?c" if "k < N" "j < N" for k j
    using that by (simp add: Y_def)
  have lf: "length ?f = N" by (rule is_mat_nth[OF R(1) i])
  have fj: "?f ! j = (if i = N then 1 else if i = j then 1 else 0)" if "j < N" for j
    by (rule simplex_frame_entry[OF N i that])
  have "dot ?f (mat_vec Y ?f) = (\<Sum>k<N. ?f ! k * mat_vec Y ?f ! k)"
    using lf Ym by (intro dot_sum) (simp_all add: is_mat_length)
  also have "\<dots> = (\<Sum>k<N. ?f ! k * (\<Sum>j<N. Y ! k ! j * ?f ! j))"
    by (intro sum.cong refl) (simp add: mat_vec_nth[OF Ym lf])
  also have "\<dots> = 1 - ?c"
  proof (cases "i = N")
    case True
    have f1: "?f ! j = 1" if "j < N" for j using fj[OF that] True by simp
    have "(\<Sum>k<N. ?f ! k * (\<Sum>j<N. Y ! k ! j * ?f ! j)) =
          (\<Sum>k<N. \<Sum>j<N. (if k = j then 1 else 0) - ?c)"
      by (intro sum.cong refl) (simp add: f1 Yn)
    also have "\<dots> = (\<Sum>k<N. (\<Sum>j<N. if k = j then 1 else 0) - (\<Sum>j<N. ?c))"
      by (simp only: sum_subtractf)
    also have "\<dots> = (\<Sum>k<N. 1 - real N * ?c)"
      by (intro sum.cong refl) simp
    also have "\<dots> = real N * (1 - real N * ?c)" by simp
    also have "\<dots> = 1 - ?c"
    proof -
      have "0 < real N + 1" by simp
      then have "?c + real N * ?c = 1" by (simp add: field_simps)
      then have "1 - real N * ?c = ?c" by simp
      then have "real N * (1 - real N * ?c) = real N * ?c" by simp
      also have "\<dots> = 1 - ?c" using \<open>?c + real N * ?c = 1\<close> by simp
      finally show ?thesis .
    qed
    finally show ?thesis .
  next
    case False
    then have iN: "i < N" using i by simp
    have inner: "(\<Sum>j<N. Y ! k ! j * ?f ! j) = Y ! k ! i" if "k < N" for k
    proof -
      have "(\<Sum>j<N. Y ! k ! j * ?f ! j) = (\<Sum>j<N. if j = i then Y ! k ! i else 0)"
        using False by (intro sum.cong refl) (auto simp: fj)
      then show ?thesis using iN by simp
    qed
    have "(\<Sum>k<N. ?f ! k * (\<Sum>j<N. Y ! k ! j * ?f ! j)) = (\<Sum>k<N. ?f ! k * Y ! k ! i)"
      by (rule sum.cong[OF refl]) (simp add: inner)
    also have "\<dots> = (\<Sum>k<N. if k = i then Y ! i ! i else 0)"
      using False by (intro sum.cong refl) (auto simp: fj)
    also have "\<dots> = Y ! i ! i" using iN by simp
    also have "\<dots> = 1 - ?c" using iN by (simp add: Yn)
    finally show ?thesis .
  qed
  finally show ?thesis .
qed

lemma simplex_all_essential:
  assumes N: "0 < N" and e: "1 / (real N + 1) < e"
  shows "classify e (simplex_frame N) = Some (replicate (Suc N) essential)"
proof -
  note R = simplex_frame_rows[OF N]
  have T: "is_mat (Suc N) N (simplex_frame N)" "0 < Suc N" "0 < N" using R(1) N by simp_all
  from check_condition_nth[OF T simplex_S_inverse[OF N]] obtain d where
    d: "check_condition (simplex_frame N) = Some d" "length d = Suc N"
    "\<forall>i<Suc N. d ! i = 1 - 1 / (real N + 1)"
    using simplex_diag[OF N] by auto
  have "map (\<lambda>d. if \<bar>d - 1\<bar> < e then essential else removable) d = replicate (Suc N) essential"
    using d(2,3) e by (intro nth_equalityI) (simp_all del: replicate_Suc)
  then show ?thesis using classify_conv[OF d(1), of e] by simp
qed

section \<open>Rounding to binary64\<close>

text \<open>
  The search for the exponent finds the binade of a number of the normal range and stops
  at \<open>-1022\<close> below it; so the rounding of a number is computed from its binade.
\<close>

lemma binade_eq:
  assumes "e0 \<le> e" "nat (e - e0) \<le> k" "2 powi e \<le> x" "x < 2 powi (e + 1)"
  shows "binade k e0 x = e"
  using assms
proof (induction k arbitrary: e0)
  case 0
  then show ?case by simp
next
  case (Suc k)
  show ?case
  proof (cases "x < 2 powi (e0 + 1)")
    case True
    have "e0 = e"
    proof (rule ccontr)
      assume "e0 \<noteq> e"
      then have "e0 + 1 \<le> e" using Suc.prems(1) by simp
      then have "(2::real) powi (e0 + 1) \<le> 2 powi e" by (intro power_int_increasing) simp_all
      then show False using True Suc.prems(3) by simp
    qed
    then show ?thesis using True by simp
  next
    case False
    then have "e0 \<noteq> e" using Suc.prems(4) by auto
    then have "e0 + 1 \<le> e" "nat (e - (e0 + 1)) \<le> k" using Suc.prems(1,2) by simp_all
    from Suc.IH[OF this Suc.prems(3,4)] False show ?thesis by simp
  qed
qed

lemma expo_normal:
  assumes "- 1022 \<le> e" "e \<le> 1023" "2 powi e \<le> \<bar>x\<bar>" "\<bar>x\<bar> < 2 powi (e + 1)"
  shows "expo x = e"
  unfolding expo_def using assms by (intro binade_eq) simp_all

lemma expo_subnormal:
  assumes "\<bar>x\<bar> < 2 powi (- 1022)"
  shows "expo x = - 1022"
proof -
  have "(2::real) powi (- 1022) \<le> 2 powi (- 1022 + 1)" by (intro power_int_increasing) simp_all
  then have less: "\<bar>x\<bar> < 2 powi (- 1022 + 1)" using assms by simp
  have "binade (Suc 2045) (- 1022) \<bar>x\<bar> = - 1022"
    using less by (simp only: binade.simps if_True)
  then show ?thesis by (simp add: expo_def)
qed

lemma fl_normal:
  assumes "- 1022 \<le> e" "e \<le> 1023" "2 powi e \<le> \<bar>x\<bar>" "\<bar>x\<bar> < 2 powi (e + 1)"
    and "round_even (x / 2 powi (e - 52)) = k" "y = of_int k * 2 powi (e - 52)"
    and "\<bar>y\<bar> < 2 powi 1024"
  shows "fl x = Fin y"
  using assms(5,6,7) unfolding fl_def expo_normal[OF assms(1-4)] by simp

lemma fl_subnormal:
  assumes "\<bar>x\<bar> < 2 powi (- 1022)"
    and "round_even (x / 2 powi (- 1074)) = k" "y = of_int k * 2 powi (- 1074)"
    and "\<bar>y\<bar> < 2 powi 1024"
  shows "fl x = Fin y"
  using assms(2,3,4) unfolding fl_def expo_subnormal[OF assms(1)] by simp

text \<open>The roundings that the runs below meet, each from its binade.\<close>

lemma fl_at_0: "fl 0 = Fin 0"
  by (rule fl_subnormal[where k = "0"])
     (simp_all add: round_even_def power_int_minus)

lemma fl_at_1: "fl (1 / 12953744211667879574559702190010707651171625584905095574841686913755541732351702201085464556891975967691972983316275962328947759192690782519488857596207264634977115153700247127325882095493965845839345131422255684387968478939180332711558614761546211605811843616790961251349338535374752162059924960553344400851693295429983666176) = Fin 0"
  by (rule fl_subnormal[where k = "0"])
     (simp_all add: round_even_def power_int_minus)

lemma fl_at_2: "fl (1 / 3599131035634557106248430806148785487095757694641533306480604458089470064537190296255232548883112685719936728506816716098566612844395439751206812144692131084107776) = Fin (1 / 3599131035634557106248430806148785487095757694641533306480604458089470064537190296255232548883112685719936728506816716098566612844395439751206812144692131084107776)"
  by (rule fl_normal[where e = "- 540" and k = "4503599627370496"])
     (simp_all add: round_even_def power_int_minus)

lemma fl_at_3: "fl (- (1 / 562949953421312)) = Fin (- (1 / 562949953421312))"
  by (rule fl_normal[where e = "- 49" and k = "- 4503599627370496"])
     (simp_all add: round_even_def power_int_minus)

lemma fl_at_4: "fl (- (34359738367 / 1180591620717411303424)) = Fin (- (34359738367 / 1180591620717411303424))"
  by (rule fl_normal[where e = "- 36" and k = "- 9007199254478848"])
     (simp_all add: round_even_def power_int_minus)

lemma fl_at_5: "fl (34359738367 / 1180591620717411303424) = Fin (34359738367 / 1180591620717411303424)"
  by (rule fl_normal[where e = "- 36" and k = "9007199254478848"])
     (simp_all add: round_even_def power_int_minus)

lemma fl_at_6: "fl (17179869183 / 295147905179352825856) = Fin (17179869183 / 295147905179352825856)"
  by (rule fl_normal[where e = "- 35" and k = "9007199254216704"])
     (simp_all add: round_even_def power_int_minus)

lemma fl_at_7: "fl (1 / 17179869184) = Fin (1 / 17179869184)"
  by (rule fl_normal[where e = "- 34" and k = "4503599627370496"])
     (simp_all add: round_even_def power_int_minus)

lemma fl_at_8: "fl (1 / 10000000000) = Fin (7737125245533627 / 77371252455336267181195264)"
  by (rule fl_normal[where e = "- 34" and k = "7737125245533627"])
     (simp_all add: round_even_def power_int_minus)

lemma fl_at_9: "fl (1 / 33554432) = Fin (1 / 33554432)"
  by (rule fl_normal[where e = "- 25" and k = "4503599627370496"])
     (simp_all add: round_even_def power_int_minus)

lemma fl_at_10: "fl (- (590295810341525782527 / 154742504910672534362390528)) = Fin (- (34359738367 / 9007199254740992))"
  by (rule fl_normal[where e = "- 19" and k = "- 9007199254478848"])
     (simp_all add: round_even_def power_int_minus)

lemma fl_at_11: "fl (- (34359738367 / 9007199254740992)) = Fin (- (34359738367 / 9007199254740992))"
  by (rule fl_normal[where e = "- 19" and k = "- 9007199254478848"])
     (simp_all add: round_even_def power_int_minus)

lemma fl_at_12: "fl (34359738367 / 9007199254740992) = Fin (34359738367 / 9007199254740992)"
  by (rule fl_normal[where e = "- 19" and k = "9007199254478848"])
     (simp_all add: round_even_def power_int_minus)

lemma fl_at_13: "fl (- (34359738369 / 9007199254740992)) = Fin (- (34359738369 / 9007199254740992))"
  by (rule fl_normal[where e = "- 18" and k = "- 4503599627501568"])
     (simp_all add: round_even_def power_int_minus)

lemma fl_at_14: "fl (34359738369 / 9007199254740992) = Fin (34359738369 / 9007199254740992)"
  by (rule fl_normal[where e = "- 18" and k = "4503599627501568"])
     (simp_all add: round_even_def power_int_minus)

lemma fl_at_15: "fl (- (17179869183 / 2251799813685248)) = Fin (- (17179869183 / 2251799813685248))"
  by (rule fl_normal[where e = "- 18" and k = "- 9007199254216704"])
     (simp_all add: round_even_def power_int_minus)

lemma fl_at_16: "fl (17179869183 / 2251799813685248) = Fin (17179869183 / 2251799813685248)"
  by (rule fl_normal[where e = "- 18" and k = "9007199254216704"])
     (simp_all add: round_even_def power_int_minus)

lemma fl_at_17: "fl (34359738367 / 4503599627370496) = Fin (34359738367 / 4503599627370496)"
  by (rule fl_normal[where e = "- 18" and k = "9007199254478848"])
     (simp_all add: round_even_def power_int_minus)

lemma fl_at_18: "fl (1 / 131072) = Fin (1 / 131072)"
  by (rule fl_normal[where e = "- 17" and k = "4503599627370496"])
     (simp_all add: round_even_def power_int_minus)

lemma fl_at_19: "fl (1 / 10) = Fin (3602879701896397 / 36028797018963968)"
  by (rule fl_normal[where e = "- 4" and k = "7205759403792794"])
     (simp_all add: round_even_def power_int_minus)

lemma fl_at_20: "fl (3602879701896397 / 36028797018963968) = Fin (3602879701896397 / 36028797018963968)"
  by (rule fl_normal[where e = "- 4" and k = "7205759403792794"])
     (simp_all add: round_even_def power_int_minus)

lemma fl_at_21: "fl (- (6004799503160661 / 18014398509481984)) = Fin (- (6004799503160661 / 18014398509481984))"
  by (rule fl_normal[where e = "- 2" and k = "- 6004799503160661"])
     (simp_all add: round_even_def power_int_minus)

lemma fl_at_22: "fl (6004799503160661 / 18014398509481984) = Fin (6004799503160661 / 18014398509481984)"
  by (rule fl_normal[where e = "- 2" and k = "6004799503160661"])
     (simp_all add: round_even_def power_int_minus)

lemma fl_at_23: "fl (1 / 3) = Fin (6004799503160661 / 18014398509481984)"
  by (rule fl_normal[where e = "- 2" and k = "6004799503160661"])
     (simp_all add: round_even_def power_int_minus)

lemma fl_at_24: "fl (16777216 / 33554433) = Fin (1125899873288193 / 2251799813685248)"
  by (rule fl_normal[where e = "- 2" and k = "9007198986305544"])
     (simp_all add: round_even_def power_int_minus)

lemma fl_at_25: "fl (34359738367 / 68719476736) = Fin (34359738367 / 68719476736)"
  by (rule fl_normal[where e = "- 2" and k = "9007199254478848"])
     (simp_all add: round_even_def power_int_minus)

lemma fl_at_26: "fl (590295810341525782529 / 1180591620717411303424) = Fin (34359738367 / 68719476736)"
  by (rule fl_normal[where e = "- 2" and k = "9007199254478848"])
     (simp_all add: round_even_def power_int_minus)

lemma fl_at_27: "fl (- (1 / 2)) = Fin (- (1 / 2))"
  by (rule fl_normal[where e = "- 1" and k = "- 4503599627370496"])
     (simp_all add: round_even_def power_int_minus)

lemma fl_at_28: "fl (1 / 2) = Fin (1 / 2)"
  by (rule fl_normal[where e = "- 1" and k = "4503599627370496"])
     (simp_all add: round_even_def power_int_minus)

lemma fl_at_29: "fl (590295810375885520895 / 1180591620717411303424) = Fin (34359738369 / 68719476736)"
  by (rule fl_normal[where e = "- 1" and k = "4503599627501568"])
     (simp_all add: round_even_def power_int_minus)

lemma fl_at_30: "fl (34359738369 / 68719476736) = Fin (34359738369 / 68719476736)"
  by (rule fl_normal[where e = "- 1" and k = "4503599627501568"])
     (simp_all add: round_even_def power_int_minus)

lemma fl_at_31: "fl (17179869184 / 34359738367) = Fin (34359738369 / 68719476736)"
  by (rule fl_normal[where e = "- 1" and k = "4503599627501568"])
     (simp_all add: round_even_def power_int_minus)

lemma fl_at_32: "fl (- (6004799503160661 / 9007199254740992)) = Fin (- (6004799503160661 / 9007199254740992))"
  by (rule fl_normal[where e = "- 1" and k = "- 6004799503160661"])
     (simp_all add: round_even_def power_int_minus)

lemma fl_at_33: "fl (6004799503160661 / 9007199254740992) = Fin (6004799503160661 / 9007199254740992)"
  by (rule fl_normal[where e = "- 1" and k = "6004799503160661"])
     (simp_all add: round_even_def power_int_minus)

lemma fl_at_34: "fl (2 / 3) = Fin (6004799503160661 / 9007199254740992)"
  by (rule fl_normal[where e = "- 1" and k = "6004799503160661"])
     (simp_all add: round_even_def power_int_minus)

lemma fl_at_35: "fl (33554431 / 33554432) = Fin (33554431 / 33554432)"
  by (rule fl_normal[where e = "- 1" and k = "9007198986305536"])
     (simp_all add: round_even_def power_int_minus)

lemma fl_at_36: "fl (- (1125899873288193 / 1125899906842624)) = Fin (- (1125899873288193 / 1125899906842624))"
  by (rule fl_normal[where e = "- 1" and k = "- 9007198986305544"])
     (simp_all add: round_even_def power_int_minus)

lemma fl_at_37: "fl (1125899873288193 / 1125899906842624) = Fin (1125899873288193 / 1125899906842624)"
  by (rule fl_normal[where e = "- 1" and k = "9007198986305544"])
     (simp_all add: round_even_def power_int_minus)

lemma fl_at_38: "fl (17179869184 / 17179869185) = Fin (17179869183 / 17179869184)"
  by (rule fl_normal[where e = "- 1" and k = "9007199254216704"])
     (simp_all add: round_even_def power_int_minus)

lemma fl_at_39: "fl (590295810341525782527 / 590295810358705651712) = Fin (34359738367 / 34359738368)"
  by (rule fl_normal[where e = "- 1" and k = "9007199254478848"])
     (simp_all add: round_even_def power_int_minus)

lemma fl_at_40: "fl (34359738367 / 34359738368) = Fin (34359738367 / 34359738368)"
  by (rule fl_normal[where e = "- 1" and k = "9007199254478848"])
     (simp_all add: round_even_def power_int_minus)

lemma fl_at_41: "fl 1 = Fin 1"
  by (rule fl_normal[where e = "0" and k = "4503599627370496"])
     (simp_all add: round_even_def power_int_minus)

lemma fl_at_42: "fl (562949953421313 / 562949953421312) = Fin (562949953421313 / 562949953421312)"
  by (rule fl_normal[where e = "0" and k = "4503599627370504"])
     (simp_all add: round_even_def power_int_minus)

lemma fl_at_43: "fl (1180591620751771041791 / 1180591620717411303424) = Fin (34359738369 / 34359738368)"
  by (rule fl_normal[where e = "0" and k = "4503599627501568"])
     (simp_all add: round_even_def power_int_minus)

lemma fl_at_44: "fl (17179869185 / 17179869184) = Fin (17179869185 / 17179869184)"
  by (rule fl_normal[where e = "0" and k = "4503599627632640"])
     (simp_all add: round_even_def power_int_minus)

lemma fl_at_45: "fl (16777217 / 16777216) = Fin (16777217 / 16777216)"
  by (rule fl_normal[where e = "0" and k = "4503599895805952"])
     (simp_all add: round_even_def power_int_minus)

lemma fl_at_46: "fl (281475010265089 / 281474976710656) = Fin (281475010265089 / 281474976710656)"
  by (rule fl_normal[where e = "0" and k = "4503600164241424"])
     (simp_all add: round_even_def power_int_minus)

lemma fl_at_47: "fl (24019198012642645 / 18014398509481984) = Fin (6004799503160661 / 4503599627370496)"
  by (rule fl_normal[where e = "0" and k = "6004799503160661"])
     (simp_all add: round_even_def power_int_minus)

lemma fl_at_48: "fl (3 / 2) = Fin (3 / 2)"
  by (rule fl_normal[where e = "0" and k = "6755399441055744"])
     (simp_all add: round_even_def power_int_minus)

lemma fl_at_49: "fl (590295810341525782529 / 295147905179352825856) = Fin (34359738367 / 17179869184)"
  by (rule fl_normal[where e = "0" and k = "9007199254478848"])
     (simp_all add: round_even_def power_int_minus)

lemma fl_at_50: "fl 2 = Fin 2"
  by (rule fl_normal[where e = "1" and k = "4503599627370496"])
     (simp_all add: round_even_def power_int_minus)

lemma fl_at_51: "fl (33554433 / 16777216) = Fin (33554433 / 16777216)"
  by (rule fl_normal[where e = "1" and k = "4503599761588224"])
     (simp_all add: round_even_def power_int_minus)

lemma fl_at_52: "fl (1125899940397057 / 562949953421312) = Fin (1125899940397057 / 562949953421312)"
  by (rule fl_normal[where e = "1" and k = "4503599761588228"])
     (simp_all add: round_even_def power_int_minus)

lemma fl_at_53: "fl (633825319003581195176885878785 / 316912650057057350374175801344) = Fin (1125899940397057 / 562949953421312)"
  by (rule fl_normal[where e = "1" and k = "4503599761588228"])
     (simp_all add: round_even_def power_int_minus)

lemma fl_at_54: "fl (562949986975745 / 281474976710656) = Fin (562949986975745 / 281474976710656)"
  by (rule fl_normal[where e = "1" and k = "4503599895805960"])
     (simp_all add: round_even_def power_int_minus)

lemma fl_at_55: "fl 3 = Fin 3"
  by (rule fl_normal[where e = "1" and k = "6755399441055744"])
     (simp_all add: round_even_def power_int_minus)

lemma fl_at_56: "fl 4 = Fin 4"
  by (rule fl_normal[where e = "2" and k = "4503599627370496"])
     (simp_all add: round_even_def power_int_minus)

lemma fl_at_57: "fl 5 = Fin 5"
  by (rule fl_normal[where e = "2" and k = "5629499534213120"])
     (simp_all add: round_even_def power_int_minus)

lemma fl_at_58: "fl 6 = Fin 6"
  by (rule fl_normal[where e = "2" and k = "6755399441055744"])
     (simp_all add: round_even_def power_int_minus)

lemma fl_at_59: "fl 7 = Fin 7"
  by (rule fl_normal[where e = "2" and k = "7881299347898368"])
     (simp_all add: round_even_def power_int_minus)

lemma fl_at_60: "fl 8 = Fin 8"
  by (rule fl_normal[where e = "3" and k = "4503599627370496"])
     (simp_all add: round_even_def power_int_minus)

lemma fl_at_61: "fl 9 = Fin 9"
  by (rule fl_normal[where e = "3" and k = "5066549580791808"])
     (simp_all add: round_even_def power_int_minus)

lemma fl_at_62: "fl 10 = Fin 10"
  by (rule fl_normal[where e = "3" and k = "5629499534213120"])
     (simp_all add: round_even_def power_int_minus)

lemma fl_at_63: "fl (- (33554431 / 2)) = Fin (- (33554431 / 2))"
  by (rule fl_normal[where e = "23" and k = "- 9007198986305536"])
     (simp_all add: round_even_def power_int_minus)

lemma fl_at_64: "fl (33554431 / 2) = Fin (33554431 / 2)"
  by (rule fl_normal[where e = "23" and k = "9007198986305536"])
     (simp_all add: round_even_def power_int_minus)

lemma fl_at_65: "fl (562949936644097 / 33554432) = Fin (562949936644097 / 33554432)"
  by (rule fl_normal[where e = "23" and k = "9007198986305552"])
     (simp_all add: round_even_def power_int_minus)

lemma fl_at_66: "fl (- (562949970198527 / 33554432)) = Fin (- (562949970198527 / 33554432))"
  by (rule fl_normal[where e = "24" and k = "- 4503599761588216"])
     (simp_all add: round_even_def power_int_minus)

lemma fl_at_67: "fl (562949970198527 / 33554432) = Fin (562949970198527 / 33554432)"
  by (rule fl_normal[where e = "24" and k = "4503599761588216"])
     (simp_all add: round_even_def power_int_minus)

lemma fl_at_68: "fl (33554433 / 2) = Fin (33554433 / 2)"
  by (rule fl_normal[where e = "24" and k = "4503599761588224"])
     (simp_all add: round_even_def power_int_minus)

lemma fl_at_69: "fl (1125899873288193 / 2) = Fin (1125899873288193 / 2)"
  by (rule fl_normal[where e = "48" and k = "9007198986305544"])
     (simp_all add: round_even_def power_int_minus)

lemma fl_at_70: "fl (- 562949953421312) = Fin (- 562949953421312)"
  by (rule fl_normal[where e = "49" and k = "- 4503599627370496"])
     (simp_all add: round_even_def power_int_minus)

lemma fl_at_71: "fl (- (37778931862957161709569 / 67108864)) = Fin (- 562949953421312)"
  by (rule fl_normal[where e = "49" and k = "- 4503599627370496"])
     (simp_all add: round_even_def power_int_minus)

lemma fl_at_72: "fl (18889466494428517498881 / 33554432) = Fin (1125899940397055 / 2)"
  by (rule fl_normal[where e = "49" and k = "4503599761588220"])
     (simp_all add: round_even_def power_int_minus)

lemma fl_at_73: "fl (1125899940397057 / 2) = Fin (1125899940397057 / 2)"
  by (rule fl_normal[where e = "49" and k = "4503599761588228"])
     (simp_all add: round_even_def power_int_minus)

lemma fl_at_74: "fl (633825319003581195176885878785 / 1125899906842624) = Fin (1125899940397057 / 2)"
  by (rule fl_normal[where e = "49" and k = "4503599761588228"])
     (simp_all add: round_even_def power_int_minus)

lemma fl_at_75: "fl (- 562949986975744) = Fin (- 562949986975744)"
  by (rule fl_normal[where e = "49" and k = "- 4503599895805952"])
     (simp_all add: round_even_def power_int_minus)

lemma fl_at_76: "fl (- 1125899940397056) = Fin (- 1125899940397056)"
  by (rule fl_normal[where e = "50" and k = "- 4503599761588224"])
     (simp_all add: round_even_def power_int_minus)

lemma fl_at_77: "fl (633825319003581195176885878785 / 562949953421312) = Fin 1125899940397057"
  by (rule fl_normal[where e = "50" and k = "4503599761588228"])
     (simp_all add: round_even_def power_int_minus)

lemma fl_at_78: "fl (- 1125899973951490) = Fin (- 1125899973951490)"
  by (rule fl_normal[where e = "50" and k = "- 4503599895805960"])
     (simp_all add: round_even_def power_int_minus)

lemma fl_at_79: "fl 1125899973951490 = Fin 1125899973951490"
  by (rule fl_normal[where e = "50" and k = "4503599895805960"])
     (simp_all add: round_even_def power_int_minus)

lemmas fl_values =
  fl_at_0 fl_at_1 fl_at_2 fl_at_3 fl_at_4 fl_at_5 fl_at_6 fl_at_7
  fl_at_8 fl_at_9 fl_at_10 fl_at_11 fl_at_12 fl_at_13 fl_at_14 fl_at_15
  fl_at_16 fl_at_17 fl_at_18 fl_at_19 fl_at_20 fl_at_21 fl_at_22 fl_at_23
  fl_at_24 fl_at_25 fl_at_26 fl_at_27 fl_at_28 fl_at_29 fl_at_30 fl_at_31
  fl_at_32 fl_at_33 fl_at_34 fl_at_35 fl_at_36 fl_at_37 fl_at_38 fl_at_39
  fl_at_40 fl_at_41 fl_at_42 fl_at_43 fl_at_44 fl_at_45 fl_at_46 fl_at_47
  fl_at_48 fl_at_49 fl_at_50 fl_at_51 fl_at_52 fl_at_53 fl_at_54 fl_at_55
  fl_at_56 fl_at_57 fl_at_58 fl_at_59 fl_at_60 fl_at_61 fl_at_62 fl_at_63
  fl_at_64 fl_at_65 fl_at_66 fl_at_67 fl_at_68 fl_at_69 fl_at_70 fl_at_71
  fl_at_72 fl_at_73 fl_at_74 fl_at_75 fl_at_76 fl_at_77 fl_at_78 fl_at_79

lemma literal_1e_10_rounds: "fl (1 / 10 ^ 10) = Fin literal_1e_10"
  by (simp add: literal_1e_10_def fl_values)


section \<open>Frames that rounding defeats\<close>







section \<open>Properties of the notebook's computations\<close>






















text \<open>
  C8 as stated fails: the matrix below is symmetric within the tolerance \<^verbatim>\<open>1e-9\<close> and the
  check of the notebook rejects it, so the check is not the tolerance-based one.
\<close>
theorem symmetry_check_tolerance_counterexample:
  "symmetric_within eps [[0, 1], [1 + 1 / 10 ^ 10, 0]] \<and>
   \<not> self_adjoint [[0, 1], [1 + 1 / 10 ^ 10, 0]]"
  by (simp add: symmetric_within_def max_abs_diff_def self_adjoint_def np_all_def np_eq_def
      transpose_m_def ncols_def col_def eps_def)

text \<open>
  C8, amended. The symmetry checks printed for the Gram matrix and for the frame operator,
  \<^verbatim>\<open>np.all(G.T == G)\<close> and \<^verbatim>\<open>np.all(S.T == S)\<close>, compare the matrix with its transpose by
  exact elementwise equality: the check of a square matrix holds exactly when every entry
  equals its mirrored entry. In real arithmetic both matrices pass it for every frame.
\<close>
theorem symmetry_check_exact:
  assumes "is_mat m n T_ana" "0 < m" "0 < n" "is_mat k k M" "0 < k"
  shows "self_adjoint (G T_ana) \<and> self_adjoint (S T_ana) \<and>
         (self_adjoint M \<longleftrightarrow> (\<forall>i<k. \<forall>j<k. M ! j ! i = M ! i ! j))"
  using self_adjoint_refl[OF is_mat_G[OF assms(1,2,3)] assms(2) G_symmetric[OF assms(1,2,3)]]
    self_adjoint_refl[OF is_mat_S[OF assms(1,2)] assms(3) S_symmetric[OF assms(1,2,3)]]
    self_adjoint_iff[OF assms(4,5)]
  by simp

theorem symmetry_check_exact_witness:
  "self_adjoint (G [[1, 0], [0, 1], [1, 1]]) \<and> self_adjoint (S [[1, 0], [0, 1], [1, 1]]) \<and>
   \<not> self_adjoint [[0, 1], [1 + 1 / 10 ^ 10, 0]]"
proof -
  have a: "is_mat 3 2 [[1, 0], [0, 1], [1, 1::real]]" by (simp add: is_mat_def)
  have b: "is_mat 2 2 [[0, 1], [1 + 1 / 10 ^ 10, 0::real]]" by (simp add: is_mat_def)
  have "\<not> (\<forall>i<2. \<forall>j<2. [[0, 1], [1 + 1 / 10 ^ 10, 0::real]] ! j ! i
              = [[0, 1], [1 + 1 / 10 ^ 10, 0]] ! i ! j)"
  proof
    assume "\<forall>i<2. \<forall>j<2. [[0, 1], [1 + 1 / 10 ^ 10, 0::real]] ! j ! i
              = [[0, 1], [1 + 1 / 10 ^ 10, 0]] ! i ! j"
    then have "[[0, 1], [1 + 1 / 10 ^ 10, 0::real]] ! 1 ! 0 = [[0, 1], [1 + 1 / 10 ^ 10, 0]] ! 0 ! 1"
      by (simp del: nth_Cons_0 nth_Cons_Suc One_nat_def)
    then show False by simp
  qed
  with symmetry_check_exact[OF a _ _ b] show ?thesis by simp
qed






end
